theory Spec2Isabelle
  imports Main "HOL-Library.Word"
begin

section \<open>Browser settings\<close>

text \<open>
  The constants of \<^verbatim>\<open>MEGA_SD_OLED_FileBrowser_LoadBar.ino\<close>. The sketch's \<^verbatim>\<open>int\<close> is
  modelled by \<^typ>\<open>int\<close>: every value the operations below store in \<^verbatim>\<open>entryCount\<close>,
  \<^verbatim>\<open>selectionIndex\<close> and \<^verbatim>\<open>scrollOffset\<close> lies between 0 and \<^verbatim>\<open>MAX_ENTRIES\<close> (\<open>model_ok\<close> below
  is kept by every operation), far inside the 16-bit range of the ATmega2560, and so do the
  sums and differences computed on the way.
\<close>

definition VISIBLE_ITEMS :: int where
  "VISIBLE_ITEMS = 5"

definition MAX_ENTRIES :: int where
  "MAX_ENTRIES = 50"

definition SHOW_ONLY_STL :: bool where
  "SHOW_ONLY_STL = False"

section \<open>Data structures\<close>

text \<open>\<^verbatim>\<open>struct Entry { char name[32]; bool isDir; }\<close>; a C string is the list of its characters
  before the terminator.\<close>

record Entry =
  name :: string
  isDir :: bool

text \<open>
  The globals of the sketch. \<open>entries\<close> is the array \<^verbatim>\<open>Entry entries[MAX_ENTRIES]\<close>, a list
  whose length stays \<^verbatim>\<open>MAX_ENTRIES\<close>. \<open>accesses\<close> is a log that the model adds: one pair
  \<open>(i, n)\<close> for every evaluation of a subscript \<^verbatim>\<open>entries[i]\<close> that reads the array, with the
  value \<open>n\<close> of \<^verbatim>\<open>entryCount\<close> at that moment.
\<close>

record browser =
  entries :: "Entry list"
  entryCount :: int
  selectionIndex :: int
  scrollOffset :: int
  currentPath :: string
  accesses :: "(int \<times> int) list"

text \<open>
  Reading \<^verbatim>\<open>entries[i]\<close>. C defines the read only inside the array; outside it the model
  returns \<open>None\<close>.
\<close>

definition readEntry :: "browser \<Rightarrow> int \<Rightarrow> (Entry \<times> browser) option" where
  "readEntry s i =
     (if 0 \<le> i \<and> i < MAX_ENTRIES \<and> nat i < length (entries s)
      then Some (entries s ! nat i, s\<lparr>accesses := accesses s @ [(i, entryCount s)]\<rparr>)
      else None)"

section \<open>Scroll clamping\<close>

definition clampScroll :: "browser \<Rightarrow> browser" where
  "clampScroll s =
     (if entryCount s \<le> 0 then s\<lparr>selectionIndex := 0, scrollOffset := 0\<rparr>
      else
        let sel = selectionIndex s;
            off = scrollOffset s;
            sel = (if sel < 0 then 0 else sel);
            sel = (if sel > entryCount s - 1 then entryCount s - 1 else sel);
            off = (if sel < off then sel else off);
            off = (if sel \<ge> off + VISIBLE_ITEMS then sel - (VISIBLE_ITEMS - 1) else off);
            off = (if off < 0 then 0 else off);
            maxOffset = entryCount s - VISIBLE_ITEMS;
            maxOffset = (if maxOffset < 0 then 0 else maxOffset);
            off = (if off > maxOffset then maxOffset else off)
        in s\<lparr>selectionIndex := sel, scrollOffset := off\<rparr>)"

section \<open>Rendering\<close>

text \<open>
  The display driver is an external collaborator; of \<^verbatim>\<open>drawUI\<close> the model keeps the loop over
  the rows and the two reads of \<^verbatim>\<open>entries[idx]\<close> that each drawn row makes (\<^verbatim>\<open>isDir\<close>, then
  \<^verbatim>\<open>name\<close>).
\<close>

function drawRows :: "int \<Rightarrow> browser \<Rightarrow> browser option" where
  "drawRows row s =
     (if row < VISIBLE_ITEMS then
        let idx = scrollOffset s + row in
        if idx \<ge> entryCount s then Some s
        else (case readEntry s idx of
                None \<Rightarrow> None
              | Some (e, s1) \<Rightarrow>
                  (case readEntry s1 idx of
                     None \<Rightarrow> None
                   | Some (e', s2) \<Rightarrow> drawRows (row + 1) s2))
      else Some s)"
  by pat_completeness auto
termination
  by (relation "measure (\<lambda>(row, s). nat (VISIBLE_ITEMS - row))") auto

definition drawUI :: "browser \<Rightarrow> browser option" where
  "drawUI s = drawRows 0 s"

section \<open>Loading a directory\<close>

definition endsWithSTL :: "string \<Rightarrow> bool" where
  "endsWithSTL s =
     (let len = length s in
      if len < 4 then False
      else
        let ext = drop (len - 4) s in
        (ext ! 0 = CHR ''.'') \<and>
        (ext ! 1 = CHR ''s'' \<or> ext ! 1 = CHR ''S'') \<and>
        (ext ! 2 = CHR ''t'' \<or> ext ! 2 = CHR ''T'') \<and>
        (ext ! 3 = CHR ''l'' \<or> ext ! 3 = CHR ''L''))"

text \<open>
  The storage collaborator (\<^verbatim>\<open>SD.h\<close>). \<^verbatim>\<open>SD.open(path)\<close> gives no file, a regular file, or
  a directory; a directory yields its children through \<^verbatim>\<open>openNextFile()\<close> in a fixed
  order, each with its \<^verbatim>\<open>name()\<close> and \<^verbatim>\<open>isDirectory()\<close>.
\<close>

datatype node = RegularFile | Directory "(string \<times> bool) list"

type_synonym sdcard = "string \<Rightarrow> node option"

text \<open>
  The \<^verbatim>\<open>while (f && entryCount < MAX_ENTRIES)\<close> loop of \<^verbatim>\<open>loadDirectory\<close>, over the children
  that \<^verbatim>\<open>openNextFile()\<close> has still to yield. \<^verbatim>\<open>strncpy\<close> with \<^verbatim>\<open>sizeof(name) - 1\<close> and the
  terminator stored behind it keep the first 31 characters of the name.
\<close>

fun loadLoop :: "(string \<times> bool) list \<Rightarrow> browser \<Rightarrow> browser" where
  "loadLoop [] s = s"
| "loadLoop ((nm, isD) # rest) s =
     (if entryCount s < MAX_ENTRIES then
        let keep = (if \<not> isD \<and> SHOW_ONLY_STL then endsWithSTL nm else True);
            s' = (if keep
                  then s\<lparr>entries := (entries s)[nat (entryCount s) :=
                                        \<lparr>name = take 31 nm, isDir = isD\<rparr>],
                         entryCount := entryCount s + 1\<rparr>
                  else s)
        in loadLoop rest s'
      else s)"

definition loadDirectory :: "sdcard \<Rightarrow> string \<Rightarrow> browser \<Rightarrow> bool \<times> browser" where
  "loadDirectory sd path s =
     (let s0 = s\<lparr>entryCount := 0, selectionIndex := 0, scrollOffset := 0\<rparr> in
      case sd path of
        None \<Rightarrow> (False, s0)
      | Some RegularFile \<Rightarrow> (False, s0)
      | Some (Directory children) \<Rightarrow> (True, clampScroll (loadLoop children s0)))"

section \<open>Paths\<close>

text \<open>\<^verbatim>\<open>snprintf(out, outSize, ...)\<close> stores at most \<open>outSize - 1\<close> characters of the formatted
  text.\<close>

definition pathJoin :: "nat \<Rightarrow> string \<Rightarrow> string \<Rightarrow> string" where
  "pathJoin outSize base child =
     (if base = ''/'' then take (outSize - 1) (''/'' @ child)
      else take (outSize - 1) (base @ ''/'' @ child))"

text \<open>\<^verbatim>\<open>strrchr\<close>: the position of the last occurrence of a character, if there is one.\<close>

fun strrchr :: "string \<Rightarrow> char \<Rightarrow> nat option" where
  "strrchr [] c = None"
| "strrchr (x # xs) c =
     (case strrchr xs c of
        Some i \<Rightarrow> Some (Suc i)
      | None \<Rightarrow> if x = c then Some 0 else None)"

definition goParent :: "string \<Rightarrow> string" where
  "goParent path =
     (if path = ''/'' then path
      else
        let len = length path;
            path = (if len > 1 \<and> path ! (len - 1) = CHR ''/'' then take (len - 1) path else path)
        in case strrchr path CHR ''/'' of
             None \<Rightarrow> ''/''
           | Some lastSlash \<Rightarrow> if lastSlash = 0 then take 1 path else take lastSlash path)"

section \<open>Actions\<close>

definition onScroll :: "browser \<Rightarrow> browser option" where
  "onScroll s =
     (if entryCount s \<le> 0 then Some s
      else
        let s1 = s\<lparr>selectionIndex := selectionIndex s + 1\<rparr>;
            s2 = (if selectionIndex s1 \<ge> entryCount s1 then s1\<lparr>selectionIndex := 0\<rparr> else s1)
        in drawUI (clampScroll s2))"

text \<open>\<^verbatim>\<open>newPath\<close> and \<^verbatim>\<open>currentPath\<close> are \<^verbatim>\<open>char[80]\<close>; \<^verbatim>\<open>strncpy\<close> with \<^verbatim>\<open>sizeof - 1\<close> and the
  terminator stored behind it keep the first 79 characters.\<close>

definition onEnter :: "sdcard \<Rightarrow> browser \<Rightarrow> browser option" where
  "onEnter sd s =
     (if entryCount s \<le> 0 then Some s
      else
        case readEntry s (selectionIndex s) of
          None \<Rightarrow> None
        | Some (e, s1) \<Rightarrow>
            if isDir e then
              (case readEntry s1 (selectionIndex s1) of
                 None \<Rightarrow> None
               | Some (e', s2) \<Rightarrow>
                   let newPath = pathJoin 80 (currentPath s2) (name e') in
                   (case loadDirectory sd newPath s2 of
                      (True, s3) \<Rightarrow> drawUI (s3\<lparr>currentPath := take 79 newPath\<rparr>)
                    | (False, s3) \<Rightarrow>
                        (case readEntry s3 (selectionIndex s3) of
                           None \<Rightarrow> None
                         | Some (e'', s4) \<Rightarrow> drawUI s4)))
            else
              (case readEntry s1 (selectionIndex s1) of
                 None \<Rightarrow> None
               | Some (e', s2) \<Rightarrow> drawUI s2))"

definition onBack :: "sdcard \<Rightarrow> browser \<Rightarrow> browser option" where
  "onBack sd s =
     (if currentPath s = ''/'' then Some s
      else
        let parent = goParent (take 79 (currentPath s)) in
        case loadDirectory sd parent s of
          (True, s1) \<Rightarrow> drawUI (s1\<lparr>currentPath := take 79 parent\<rparr>)
        | (False, s1) \<Rightarrow> drawUI (snd (loadDirectory sd ''/'' (s1\<lparr>currentPath := ''/''\<rparr>))))"

section \<open>Properties of the directory model\<close>

text \<open>The array of the sketch has \<^verbatim>\<open>MAX_ENTRIES\<close> slots and \<^verbatim>\<open>entryCount\<close> never exceeds
  them.\<close>

definition array_ok :: "browser \<Rightarrow> bool" where
  "array_ok s \<longleftrightarrow> length (entries s) = nat MAX_ENTRIES \<and> entryCount s \<le> MAX_ENTRIES"

text \<open>The window invariant of the directory model.\<close>

definition scroll_inv :: "browser \<Rightarrow> bool" where
  "scroll_inv s \<longleftrightarrow>
     0 \<le> scrollOffset s \<and> scrollOffset s \<le> selectionIndex s \<and>
     selectionIndex s \<le> scrollOffset s + VISIBLE_ITEMS - 1 \<and>
     (if entryCount s \<le> VISIBLE_ITEMS then scrollOffset s = 0
      else scrollOffset s + VISIBLE_ITEMS \<le> entryCount s)"

text \<open>Every logged read of \<^verbatim>\<open>entries[i]\<close> had \<open>0 \<le> i < entryCount\<close>.\<close>

definition reads_ok :: "browser \<Rightarrow> bool" where
  "reads_ok s \<longleftrightarrow> list_all (\<lambda>(i, n). 0 \<le> i \<and> i < n) (accesses s)"

text \<open>\<open>n\<close> presses of the Scroll button in a row.\<close>

fun scrolls :: "nat \<Rightarrow> browser \<Rightarrow> browser option" where
  "scrolls 0 s = Some s"
| "scrolls (Suc n) s = (case onScroll s of None \<Rightarrow> None | Some s' \<Rightarrow> scrolls n s')"

text \<open>The state after the wrapping increment of \<^verbatim>\<open>onScroll\<close>, before \<^verbatim>\<open>clampScroll\<close>.\<close>

definition advanced :: "browser \<Rightarrow> browser" where
  "advanced s =
     s\<lparr>selectionIndex :=
          (if selectionIndex s + 1 \<ge> entryCount s then 0 else selectionIndex s + 1)\<rparr>"

section \<open>Example inputs\<close>

text \<open>The globals as the sketch initialises them.\<close>

definition boot :: browser where
  "boot = \<lparr>entries = replicate 50 \<lparr>name = [], isDir = False\<rparr>, entryCount = 0,
           selectionIndex = 0, scrollOffset = 0, currentPath = ''/'', accesses = []\<rparr>"

text \<open>The entry that the loop of \<^verbatim>\<open>loadDirectory\<close> stores for a child.\<close>

definition toEntry :: "string \<times> bool \<Rightarrow> Entry" where
  "toEntry c = \<lparr>name = take 31 (fst c), isDir = snd c\<rparr>"

text \<open>A card whose root directory has 53 children, some with names longer than 31
  characters.\<close>

definition crowded :: "(string \<times> bool) list" where
  "crowded = map (\<lambda>k. (replicate (Suc k) CHR ''a'', even k)) [0..<53]"

definition crowdedCard :: sdcard where
  "crowdedCard p = (if p = ''/'' then Some (Directory crowded) else None)"

text \<open>A path of 78 characters: it fits \<^verbatim>\<open>currentPath\<close>, and one more directory level does not
  fit \<^verbatim>\<open>newPath\<close>.\<close>

definition longPath :: string where
  "longPath = CHR ''/'' # replicate 77 CHR ''a''"

text \<open>The listing of the directory model: the entry table with its three counters.\<close>

definition listing :: "browser \<Rightarrow> Entry list \<times> int \<times> int \<times> int" where
  "listing s = (entries s, entryCount s, selectionIndex s, scrollOffset s)"

text \<open>A card with two directories in the root, of which \<open>/B\<close> cannot be opened.\<close>

definition twoDirs :: sdcard where
  "twoDirs p =
     (if p = ''/'' then Some (Directory [(''A'', True), (''B'', True)])
      else if p = ''/A'' then Some (Directory [(''x.stl'', False)])
      else None)"

section \<open>Debounced buttons\<close>

definition DEBOUNCE_MS :: nat where
  "DEBOUNCE_MS = 120"

definition HIGH :: bool where
  "HIGH = True"

definition LOW :: bool where
  "LOW = False"

text \<open>
  One button with the two globals that \<^verbatim>\<open>buttonPressed\<close> receives by reference, and the
  hardware around it: \<open>clock\<close> is the time in milliseconds since start, of which
  \<^verbatim>\<open>millis()\<close> returns the low 32 bits (\<^verbatim>\<open>unsigned long\<close>). The level of the pin is a function
  of time, \<open>True\<close> for \<^verbatim>\<open>HIGH\<close> (released, the input has a pull-up). Time passes in
  \<^verbatim>\<open>delay\<close> and between calls, not inside the other statements. The model adds two logs:
  \<open>sampled\<close>, the times of all \<^verbatim>\<open>digitalRead\<close> calls, written by \<open>digitalRead\<close>, and \<open>presses\<close>,
  which \<^verbatim>\<open>buttonPressed\<close> never touches: the polling loop below writes it from the value that
  \<^verbatim>\<open>buttonPressed\<close> returned.
\<close>

record button =
  lastState :: bool
  lastTime :: "32 word"
  clock :: nat
  sampled :: "nat list"
  presses :: "(nat \<times> nat) list"

definition millis :: "button \<Rightarrow> 32 word" where
  "millis b = of_nat (clock b)"

definition digitalRead :: "(nat \<Rightarrow> bool) \<Rightarrow> button \<Rightarrow> bool \<times> button" where
  "digitalRead pin b = (pin (clock b), b\<lparr>sampled := sampled b @ [clock b]\<rparr>)"

definition delay :: "nat \<Rightarrow> button \<Rightarrow> button" where
  "delay ms b = b\<lparr>clock := clock b + ms\<rparr>"

text \<open>\<^verbatim>\<open>while (digitalRead(pin) == LOW) { delay(5); }\<close>; the loop need not end.\<close>

partial_function (option) waitRelease :: "(nat \<Rightarrow> bool) \<Rightarrow> button \<Rightarrow> button option" where
  "waitRelease pin b =
     (case digitalRead pin b of
        (level, b1) \<Rightarrow> if level = LOW then waitRelease pin (delay 5 b1) else Some b1)"

definition buttonPressed :: "(nat \<Rightarrow> bool) \<Rightarrow> button \<Rightarrow> (bool \<times> button) option" where
  "buttonPressed pin b =
     (case digitalRead pin b of
        (now, b1) \<Rightarrow>
          let b2 = (if now \<noteq> lastState b1 then b1\<lparr>lastTime := millis b1, lastState := now\<rparr>
                    else b1)
          in if now = LOW \<and> unat (millis b2 - lastTime b2) > DEBOUNCE_MS then
               (case waitRelease pin b2 of
                  None \<Rightarrow> None
                | Some b3 \<Rightarrow>
                    Some (True, b3\<lparr>lastState := HIGH, lastTime := millis b3\<rparr>))
             else Some (False, b2))"

text \<open>
  \<^verbatim>\<open>loop()\<close> polling one button: \<^verbatim>\<open>if (buttonPressed(...)) action();\<close>. Before each call the
  rest of the loop takes some time. Where the sketch runs the action for a call that
  returned \<^verbatim>\<open>true\<close>, the model appends to \<open>presses\<close> the time of that call and the time
  of its return; a call that returned \<^verbatim>\<open>false\<close> leaves \<open>presses\<close> alone.
\<close>

definition logged :: "nat \<Rightarrow> bool \<Rightarrow> button \<Rightarrow> button" where
  "logged t r b' = (if r then b'\<lparr>presses := presses b' @ [(t, clock b')]\<rparr> else b')"

fun polls :: "(nat \<Rightarrow> bool) \<Rightarrow> nat list \<Rightarrow> button \<Rightarrow> button option" where
  "polls pin [] b = Some b"
| "polls pin (d # ds) b =
     (case buttonPressed pin (delay d b) of
        None \<Rightarrow> None
      | Some (r, b') \<Rightarrow> polls pin ds (logged (clock b + d) r b'))"

text \<open>
  What a call at time \<open>fst p\<close> that returned \<^verbatim>\<open>true\<close> at time \<open>snd p\<close> must satisfy against the
  log of samples: some sample more than \<^verbatim>\<open>DEBOUNCE_MS\<close> before the call read active and so
  did every sample from then to the call; the call returned later, at a sample that read
  released, and every sample from the call until then read active.
\<close>

definition press_ok :: "(nat \<Rightarrow> bool) \<Rightarrow> nat list \<Rightarrow> nat \<times> nat \<Rightarrow> bool" where
  "press_ok pin smp p \<longleftrightarrow>
     (\<exists>t0 \<in> set smp. t0 + DEBOUNCE_MS < fst p \<and>
         (\<forall>u \<in> set smp. t0 \<le> u \<and> u \<le> fst p \<longrightarrow> pin u = LOW)) \<and>
     fst p < snd p \<and> snd p \<in> set smp \<and> pin (snd p) = HIGH \<and>
     (\<forall>u \<in> set smp. fst p \<le> u \<and> u < snd p \<longrightarrow> pin u = LOW)"

text \<open>Each call that returned \<^verbatim>\<open>true\<close> was made only after the one before it had returned.\<close>

definition separated :: "(nat \<times> nat) list \<Rightarrow> bool" where
  "separated ps \<longleftrightarrow> sorted_wrt (\<lambda>p q. snd p \<le> fst q) ps"

definition debounce_inv :: "(nat \<Rightarrow> bool) \<Rightarrow> button \<Rightarrow> bool" where
  "debounce_inv pin b \<longleftrightarrow>
     (\<forall>u \<in> set (sampled b). u \<le> clock b) \<and>
     (lastState b = LOW \<longrightarrow>
        (\<exists>t0 \<in> set (sampled b). of_nat t0 = lastTime b \<and>
            (\<forall>u \<in> set (sampled b). t0 \<le> u \<longrightarrow> pin u = LOW))) \<and>
     (\<forall>p \<in> set (presses b). snd p \<le> clock b \<and> press_ok pin (sampled b) p) \<and>
     separated (presses b)"

text \<open>The button as the sketch initialises it, at time \<open>t0\<close>.\<close>

definition released :: "nat \<Rightarrow> button" where
  "released t0 = \<lparr>lastState = HIGH, lastTime = 0, clock = t0, sampled = [], presses = []\<rparr>"

text \<open>A pin that is pressed from 100 ms to 250 ms and again from 500 ms to 640 ms.\<close>

definition twoPresses :: "nat \<Rightarrow> bool" where
  "twoPresses t \<longleftrightarrow> \<not> (100 \<le> t \<and> t < 250) \<and> \<not> (500 \<le> t \<and> t < 640)"

text \<open>A pin whose contact closes for 50 ms only.\<close>

definition bounce :: "nat \<Rightarrow> bool" where
  "bounce t \<longleftrightarrow> \<not> (100 \<le> t \<and> t < 150)"

text \<open>What \<^verbatim>\<open>waitRelease\<close> has done when it returns \<open>b'\<close> from \<open>b\<close>.\<close>

definition wait_post :: "(nat \<Rightarrow> bool) \<Rightarrow> button \<Rightarrow> button \<Rightarrow> bool" where
  "wait_post pin b b' \<longleftrightarrow>
     clock b \<le> clock b' \<and> pin (clock b') \<and> clock b' \<in> set (sampled b') \<and>
     set (sampled b) \<subseteq> set (sampled b') \<and>
     (\<forall>u \<in> set (sampled b'). u \<in> set (sampled b) \<or>
         (clock b \<le> u \<and> u \<le> clock b' \<and> (u < clock b' \<longrightarrow> \<not> pin u))) \<and>
     lastState b' = lastState b \<and> lastTime b' = lastTime b \<and> presses b' = presses b"

text \<open>The button after the sample and the edge test at the start of \<^verbatim>\<open>buttonPressed\<close>.\<close>

definition noted :: "(nat \<Rightarrow> bool) \<Rightarrow> button \<Rightarrow> button" where
  "noted pin b =
     (if pin (clock b) \<noteq> lastState b
      then b\<lparr>sampled := sampled b @ [clock b], lastTime := of_nat (clock b),
             lastState := pin (clock b)\<rparr>
      else b\<lparr>sampled := sampled b @ [clock b]\<rparr>)"

text \<open>
  The states of the directory model: the array has its \<^verbatim>\<open>MAX_ENTRIES\<close> slots, \<open>entryCount\<close> is
  between 0 and \<^verbatim>\<open>MAX_ENTRIES\<close>, \<open>selectionIndex\<close> is below \<open>entryCount\<close> (0 when the listing is
  empty), \<open>scrollOffset\<close> is between 0 and \<open>max 0 (entryCount - VISIBLE)\<close>, and \<open>currentPath\<close>
  fits its buffer of 80 bytes. The sketch starts in such a state and every operation keeps
  it (lemmas \<open>model_ok_boot\<close> to \<open>model_ok_onBack\<close>).
\<close>

definition model_ok :: "browser \<Rightarrow> bool" where
  "model_ok s \<longleftrightarrow>
     array_ok s \<and> 0 \<le> entryCount s \<and>
     0 \<le> selectionIndex s \<and> selectionIndex s < max 1 (entryCount s) \<and>
     0 \<le> scrollOffset s \<and> scrollOffset s \<le> max 0 (entryCount s - VISIBLE_ITEMS) \<and>
     length (currentPath s) \<le> 79"

section \<open>Scrolling: lemmas\<close>

declare drawRows.simps [simp del]

lemma clampScroll_other [simp]:
  "entryCount (clampScroll s) = entryCount s"
  "entries (clampScroll s) = entries s"
  "currentPath (clampScroll s) = currentPath s"
  "accesses (clampScroll s) = accesses s"
  by (simp_all add: clampScroll_def Let_def)

lemma clampScroll_inv: "0 < entryCount s \<Longrightarrow> scroll_inv (clampScroll s)"
  by (simp add: clampScroll_def scroll_inv_def VISIBLE_ITEMS_def Let_def)

lemma clampScroll_sel:
  "0 < entryCount s \<Longrightarrow>
   0 \<le> selectionIndex (clampScroll s) \<and> selectionIndex (clampScroll s) < entryCount s"
  by (simp add: clampScroll_def VISIBLE_ITEMS_def Let_def)

lemma clampScroll_off_nonneg: "0 \<le> scrollOffset (clampScroll s)"
  by (simp add: clampScroll_def VISIBLE_ITEMS_def Let_def)

lemma readEntry_in:
  "0 \<le> i \<Longrightarrow> i < MAX_ENTRIES \<Longrightarrow> nat i < length (entries s) \<Longrightarrow>
   readEntry s i = Some (entries s ! nat i, s\<lparr>accesses := accesses s @ [(i, entryCount s)]\<rparr>)"
  by (simp add: readEntry_def)

lemma readEntry_Some:
  "readEntry s i = Some (e, s') \<Longrightarrow>
   s' = s\<lparr>accesses := accesses s @ [(i, entryCount s)]\<rparr> \<and> e = entries s ! nat i \<and>
   0 \<le> i \<and> i < MAX_ENTRIES \<and> nat i < length (entries s)"
  by (auto simp: readEntry_def split: if_splits)

lemma drawRows_stop:
  "\<not> (row < VISIBLE_ITEMS \<and> scrollOffset s + row < entryCount s) \<Longrightarrow> drawRows row s = Some s"
  by (subst drawRows.simps) (auto simp: Let_def)

lemma drawRows_go:
  assumes "row < VISIBLE_ITEMS" "scrollOffset s + row < entryCount s"
    and "0 \<le> scrollOffset s + row" "scrollOffset s + row < MAX_ENTRIES"
    and "nat (scrollOffset s + row) < length (entries s)"
  shows "drawRows row s =
         drawRows (row + 1)
           (s\<lparr>accesses := accesses s @ [(scrollOffset s + row, entryCount s),
                                        (scrollOffset s + row, entryCount s)]\<rparr>)"
  using assms by (subst drawRows.simps) (simp add: Let_def readEntry_def)

lemma drawRows_bad:
  assumes "row < VISIBLE_ITEMS" "scrollOffset s + row < entryCount s"
    and "\<not> (0 \<le> scrollOffset s + row \<and> scrollOffset s + row < MAX_ENTRIES
            \<and> nat (scrollOffset s + row) < length (entries s))"
  shows "drawRows row s = None"
  using assms by (subst drawRows.simps) (auto simp: Let_def readEntry_def)

lemma drawRows_model:
  "drawRows row s = Some s' \<Longrightarrow> s' = s\<lparr>accesses := accesses s'\<rparr>"
proof (induction "nat (VISIBLE_ITEMS - row)" arbitrary: row s)
  case 0
  then show ?case by (simp add: drawRows_stop)
next
  case (Suc k)
  show ?case
  proof (cases "row < VISIBLE_ITEMS \<and> scrollOffset s + row < entryCount s")
    case False
    with Suc.prems show ?thesis by (simp add: drawRows_stop)
  next
    case go: True
    show ?thesis
    proof (cases "0 \<le> scrollOffset s + row \<and> scrollOffset s + row < MAX_ENTRIES
            \<and> nat (scrollOffset s + row) < length (entries s)")
      case False
      with go Suc.prems show ?thesis by (simp add: drawRows_bad)
    next
      case True
      let ?s2 = "s\<lparr>accesses := accesses s @ [(scrollOffset s + row, entryCount s),
                                        (scrollOffset s + row, entryCount s)]\<rparr>"
      from go True Suc.prems have "drawRows (row + 1) ?s2 = Some s'"
        by (simp add: drawRows_go)
      moreover from Suc.hyps(2) have "k = nat (VISIBLE_ITEMS - (row + 1))" by simp
      ultimately have "s' = ?s2\<lparr>accesses := accesses s'\<rparr>" by (rule Suc.hyps(1)[rotated])
      then show ?thesis by simp
    qed
  qed
qed

lemma drawRows_total:
  "0 \<le> row \<Longrightarrow> 0 \<le> scrollOffset s \<Longrightarrow> array_ok s \<Longrightarrow> \<exists>s'. drawRows row s = Some s'"
proof (induction "nat (VISIBLE_ITEMS - row)" arbitrary: row s)
  case 0
  then show ?case by (simp add: drawRows_stop)
next
  case (Suc k)
  show ?case
  proof (cases "row < VISIBLE_ITEMS \<and> scrollOffset s + row < entryCount s")
    case False
    then show ?thesis by (simp add: drawRows_stop)
  next
    case go: True
    let ?s2 = "s\<lparr>accesses := accesses s @ [(scrollOffset s + row, entryCount s),
                                        (scrollOffset s + row, entryCount s)]\<rparr>"
    from go Suc.prems have inb: "0 \<le> scrollOffset s + row" "scrollOffset s + row < MAX_ENTRIES"
       "nat (scrollOffset s + row) < length (entries s)"
      by (auto simp: array_ok_def)
    from go inb have eq: "drawRows row s = drawRows (row + 1) ?s2"
      by (simp add: drawRows_go)
    from Suc.hyps(2) have "k = nat (VISIBLE_ITEMS - (row + 1))" by simp
    moreover from Suc.prems have "0 \<le> row + 1" "0 \<le> scrollOffset ?s2" "array_ok ?s2"
      by (simp_all add: array_ok_def)
    ultimately have "\<exists>s'. drawRows (row + 1) ?s2 = Some s'" by (rule Suc.hyps(1))
    with eq show ?thesis by simp
  qed
qed

lemma drawRows_reads:
  "drawRows row s = Some s' \<Longrightarrow> 0 \<le> row \<Longrightarrow> 0 \<le> scrollOffset s \<Longrightarrow> reads_ok s
   \<Longrightarrow> reads_ok s'"
proof (induction "nat (VISIBLE_ITEMS - row)" arbitrary: row s)
  case 0
  then show ?case by (simp add: drawRows_stop)
next
  case (Suc k)
  show ?case
  proof (cases "row < VISIBLE_ITEMS \<and> scrollOffset s + row < entryCount s")
    case False
    with Suc.prems show ?thesis by (simp add: drawRows_stop)
  next
    case go: True
    show ?thesis
    proof (cases "0 \<le> scrollOffset s + row \<and> scrollOffset s + row < MAX_ENTRIES
            \<and> nat (scrollOffset s + row) < length (entries s)")
      case False
      with go Suc.prems show ?thesis by (simp add: drawRows_bad)
    next
      case True
      let ?s2 = "s\<lparr>accesses := accesses s @ [(scrollOffset s + row, entryCount s),
                                        (scrollOffset s + row, entryCount s)]\<rparr>"
      from go True Suc.prems have d: "drawRows (row + 1) ?s2 = Some s'"
        by (simp add: drawRows_go)
      from Suc.hyps(2) have k: "k = nat (VISIBLE_ITEMS - (row + 1))" by simp
      from Suc.prems go True have "0 \<le> row + 1" "0 \<le> scrollOffset ?s2" "reads_ok ?s2"
        by (simp_all add: reads_ok_def)
      with k d show ?thesis by (rule Suc.hyps(1))
    qed
  qed
qed

lemma drawUI_model: "drawUI s = Some s' \<Longrightarrow> s' = s\<lparr>accesses := accesses s'\<rparr>"
  unfolding drawUI_def by (rule drawRows_model)

lemma drawUI_total: "0 \<le> scrollOffset s \<Longrightarrow> array_ok s \<Longrightarrow> \<exists>s'. drawUI s = Some s'"
  unfolding drawUI_def by (rule drawRows_total) simp_all

lemma drawUI_reads:
  "drawUI s = Some s' \<Longrightarrow> 0 \<le> scrollOffset s \<Longrightarrow> reads_ok s \<Longrightarrow> reads_ok s'"
  unfolding drawUI_def using drawRows_reads[of 0 s s'] by simp

lemma drawUI_fields:
  assumes "drawUI s = Some s'"
  shows "entries s' = entries s" "entryCount s' = entryCount s"
    "selectionIndex s' = selectionIndex s" "scrollOffset s' = scrollOffset s"
    "currentPath s' = currentPath s"
proof -
  have eq: "s' = s\<lparr>accesses := accesses s'\<rparr>" using assms by (rule drawUI_model)
  show "entries s' = entries s" by (subst eq) simp
  show "entryCount s' = entryCount s" by (subst eq) simp
  show "selectionIndex s' = selectionIndex s" by (subst eq) simp
  show "scrollOffset s' = scrollOffset s" by (subst eq) simp
  show "currentPath s' = currentPath s" by (subst eq) simp
qed

lemma onScroll_pos:
  "0 < entryCount s \<Longrightarrow> onScroll s = drawUI (clampScroll (advanced s))"
  by (simp add: onScroll_def advanced_def Let_def)

lemma onScroll_step:
  assumes "0 < entryCount s" "array_ok s"
  obtains s' where "onScroll s = Some s'"
    "entryCount s' = entryCount s" "entries s' = entries s" "currentPath s' = currentPath s"
    "selectionIndex s' = selectionIndex (clampScroll (advanced s))"
    "scrollOffset s' = scrollOffset (clampScroll (advanced s))"
proof -
  have "array_ok (clampScroll (advanced s))"
    using assms(2) by (simp add: array_ok_def advanced_def)
  then obtain s' where d: "drawUI (clampScroll (advanced s)) = Some s'"
    using drawUI_total[OF clampScroll_off_nonneg] by blast
  show thesis
  proof
    show "onScroll s = Some s'" using assms(1) d by (simp add: onScroll_pos)
    show "entryCount s' = entryCount s" using drawUI_fields(2)[OF d] by (simp add: advanced_def)
    show "entries s' = entries s" using drawUI_fields(1)[OF d] by (simp add: advanced_def)
    show "currentPath s' = currentPath s" using drawUI_fields(5)[OF d] by (simp add: advanced_def)
    show "selectionIndex s' = selectionIndex (clampScroll (advanced s))"
      using drawUI_fields(3)[OF d] .
    show "scrollOffset s' = scrollOffset (clampScroll (advanced s))"
      using drawUI_fields(4)[OF d] .
  qed
qed

lemma scroll_inv_cong:
  "entryCount s' = entryCount s \<Longrightarrow> selectionIndex s' = selectionIndex s \<Longrightarrow>
   scrollOffset s' = scrollOffset s \<Longrightarrow> scroll_inv s' = scroll_inv s"
  by (simp add: scroll_inv_def)

lemma onScroll_inv:
  assumes "0 < entryCount s" "array_ok s"
  shows "\<exists>s'. onScroll s = Some s' \<and> scroll_inv s' \<and> entryCount s' = entryCount s \<and> array_ok s'"
proof -
  from assms obtain s' where s': "onScroll s = Some s'"
    "entryCount s' = entryCount s" "entries s' = entries s"
    "selectionIndex s' = selectionIndex (clampScroll (advanced s))"
    "scrollOffset s' = scrollOffset (clampScroll (advanced s))"
    by (rule onScroll_step)
  have "0 < entryCount (advanced s)" using assms(1) by (simp add: advanced_def)
  then have "scroll_inv (clampScroll (advanced s))" by (rule clampScroll_inv)
  moreover have "entryCount s' = entryCount (clampScroll (advanced s))"
    using s'(2) by (simp add: advanced_def)
  then have "scroll_inv s' = scroll_inv (clampScroll (advanced s))"
    using s'(4,5) by (rule scroll_inv_cong)
  ultimately have "scroll_inv s'" by simp
  moreover have "array_ok s'" using assms(2) s'(2,3) by (simp add: array_ok_def)
  ultimately show ?thesis using s'(1,2) by blast
qed

text \<open>
  C2. From every state with \<open>entryCount > 0\<close> (and the array of \<^verbatim>\<open>MAX_ENTRIES\<close> slots that the
  sketch declares), every number \<open>n > 0\<close> of \<^verbatim>\<open>onScroll\<close> calls returns, and the state after the
  last one satisfies \<open>0 \<le> scrollOffset \<le> selectionIndex \<le> scrollOffset + VISIBLE - 1\<close>, with
  \<open>scrollOffset + VISIBLE \<le> entryCount\<close> unless \<open>entryCount \<le> VISIBLE\<close>, where
  \<open>scrollOffset = 0\<close>. Since \<open>n\<close> is arbitrary, the invariant holds after each call of a
  sequence. The start values of \<open>selectionIndex\<close> and \<open>scrollOffset\<close> are arbitrary integers; of
  the 16-bit values of the target only \<open>selectionIndex = 32767\<close> makes a step of \<^verbatim>\<open>onScroll\<close>
  overflow (its increment), and no operation of the sketch stores that value.
\<close>

theorem onScroll_keeps_window:
  assumes "0 < entryCount s" and "array_ok s" and "0 < n"
  shows "\<exists>s'. scrolls n s = Some s' \<and> scroll_inv s'"
  using assms
proof (induction n arbitrary: s)
  case 0
  then show ?case by simp
next
  case (Suc n)
  from onScroll_inv[OF Suc.prems(1,2)] obtain s1 where s1: "onScroll s = Some s1"
    "scroll_inv s1" "entryCount s1 = entryCount s" "array_ok s1" by blast
  show ?case
  proof (cases n)
    case 0
    with s1 show ?thesis by simp
  next
    case (Suc m)
    with Suc.IH[of s1] s1 Suc.prems(1) show ?thesis by simp
  qed
qed

theorem onScroll_keeps_window_witness:
  "0 < entryCount (boot\<lparr>entryCount := 7, selectionIndex := 40, scrollOffset := -3\<rparr>) \<and>
   array_ok (boot\<lparr>entryCount := 7, selectionIndex := 40, scrollOffset := -3\<rparr>) \<and>
   (0::nat) < 9 \<and>
   (\<exists>s'. scrolls 9 (boot\<lparr>entryCount := 7, selectionIndex := 40, scrollOffset := -3\<rparr>) = Some s'
         \<and> scroll_inv s')"
  using onScroll_keeps_window
          [of "boot\<lparr>entryCount := 7, selectionIndex := 40, scrollOffset := -3\<rparr>" 9]
  by (simp add: boot_def array_ok_def MAX_ENTRIES_def)

lemma clampScroll_selection:
  "0 < entryCount s \<Longrightarrow>
   selectionIndex (clampScroll s) = max 0 (min (selectionIndex s) (entryCount s - 1))"
  by (simp add: clampScroll_def Let_def)

lemma clampScroll_push:
  "0 < entryCount s \<Longrightarrow> scrollOffset s + VISIBLE_ITEMS \<le> selectionIndex (clampScroll s) \<Longrightarrow>
   scrollOffset (clampScroll s) =
     max 0 (min (selectionIndex (clampScroll s) - (VISIBLE_ITEMS - 1))
                (max 0 (entryCount s - VISIBLE_ITEMS)))"
  by (simp add: clampScroll_def Let_def VISIBLE_ITEMS_def)

lemma clampScroll_bottom:
  "0 < entryCount s \<Longrightarrow> scrollOffset s + VISIBLE_ITEMS \<le> selectionIndex (clampScroll s) \<Longrightarrow>
   0 \<le> scrollOffset s \<Longrightarrow>
   selectionIndex (clampScroll s) = scrollOffset (clampScroll s) + (VISIBLE_ITEMS - 1)"
  by (auto simp: clampScroll_def Let_def VISIBLE_ITEMS_def split: if_splits)

lemma scrolls_seven:
  assumes "entryCount s = 7" "array_ok s" "selectionIndex s = 0" "scrollOffset s = 0"
  shows "\<exists>s6 s7. scrolls 6 s = Some s6 \<and> selectionIndex s6 = 6 \<and> scrollOffset s6 = 2 \<and>
            onScroll s6 = Some s7 \<and> selectionIndex s7 = 0 \<and> scrollOffset s7 = 0"
proof -
  have step: "\<exists>s'. onScroll t = Some s' \<and> entryCount s' = 7 \<and> array_ok s' \<and>
        selectionIndex s' = (if selectionIndex t + 1 \<ge> 7 then 0 else selectionIndex t + 1) \<and>
        scrollOffset s' = scrollOffset (clampScroll (advanced t))"
    if "entryCount t = 7" "array_ok t" "0 \<le> selectionIndex t" for t
  proof -
    from that have "0 < entryCount t" by simp
    from this that(2) obtain s' where s': "onScroll t = Some s'"
      "entryCount s' = entryCount t" "entries s' = entries t"
      "selectionIndex s' = selectionIndex (clampScroll (advanced t))"
      "scrollOffset s' = scrollOffset (clampScroll (advanced t))"
      by (rule onScroll_step)
    have "array_ok s'" using that(2) s'(2,3) by (simp add: array_ok_def)
    moreover have "selectionIndex (clampScroll (advanced t)) =
         (if selectionIndex t + 1 \<ge> 7 then 0 else selectionIndex t + 1)"
      using that by (simp add: clampScroll_def advanced_def Let_def)
    ultimately show ?thesis using s' that(1) by simp
  qed
  have off: "scrollOffset (clampScroll (advanced t)) =
      (if selectionIndex t + 1 \<ge> 7 then 0
       else if selectionIndex t + 1 \<ge> scrollOffset t + 5 then selectionIndex t - 3
       else scrollOffset t)"
    if "entryCount t = 7" "0 \<le> scrollOffset t" "scrollOffset t \<le> selectionIndex t"
       "scrollOffset t \<le> 2" for t
    using that by (simp add: clampScroll_def advanced_def Let_def VISIBLE_ITEMS_def)
  from step[OF assms(1,2)] assms(3) obtain s1 where s1: "onScroll s = Some s1"
    "entryCount s1 = 7" "array_ok s1" "selectionIndex s1 = 1"
    "scrollOffset s1 = scrollOffset (clampScroll (advanced s))" by auto
  from s1(5) off[of s] assms have o1: "scrollOffset s1 = 0" by simp
  from step[OF s1(2,3)] s1(4) obtain s2 where s2: "onScroll s1 = Some s2"
    "entryCount s2 = 7" "array_ok s2" "selectionIndex s2 = 2"
    "scrollOffset s2 = scrollOffset (clampScroll (advanced s1))" by auto
  from s2(5) off[of s1] s1 o1 have o2: "scrollOffset s2 = 0" by simp
  from step[OF s2(2,3)] s2(4) obtain s3 where s3: "onScroll s2 = Some s3"
    "entryCount s3 = 7" "array_ok s3" "selectionIndex s3 = 3"
    "scrollOffset s3 = scrollOffset (clampScroll (advanced s2))" by auto
  from s3(5) off[of s2] s2 o2 have o3: "scrollOffset s3 = 0" by simp
  from step[OF s3(2,3)] s3(4) obtain s4 where s4: "onScroll s3 = Some s4"
    "entryCount s4 = 7" "array_ok s4" "selectionIndex s4 = 4"
    "scrollOffset s4 = scrollOffset (clampScroll (advanced s3))" by auto
  from s4(5) off[of s3] s3 o3 have o4: "scrollOffset s4 = 0" by simp
  from step[OF s4(2,3)] s4(4) obtain s5 where s5: "onScroll s4 = Some s5"
    "entryCount s5 = 7" "array_ok s5" "selectionIndex s5 = 5"
    "scrollOffset s5 = scrollOffset (clampScroll (advanced s4))" by auto
  from s5(5) off[of s4] s4 o4 have o5: "scrollOffset s5 = 1" by simp
  from step[OF s5(2,3)] s5(4) obtain s6 where s6: "onScroll s5 = Some s6"
    "entryCount s6 = 7" "array_ok s6" "selectionIndex s6 = 6"
    "scrollOffset s6 = scrollOffset (clampScroll (advanced s5))" by auto
  from s6(5) off[of s5] s5 o5 have o6: "scrollOffset s6 = 2" by simp
  from step[OF s6(2,3)] s6(4) obtain s7 where s7: "onScroll s6 = Some s7"
    "entryCount s7 = 7" "array_ok s7" "selectionIndex s7 = 0"
    "scrollOffset s7 = scrollOffset (clampScroll (advanced s6))" by auto
  from s7(5) off[of s6] s6 o6 have o7: "scrollOffset s7 = 0" by simp
  have "scrolls 6 s = Some s6"
    using s1(1) s2(1) s3(1) s4(1) s5(1) s6(1) by (simp add: eval_nat_numeral)
  with s6(4) o6 s7(1,4) o7 show ?thesis by blast
qed

text \<open>
  C3. With \<open>entryCount > 0\<close>, \<^verbatim>\<open>clampScroll\<close> first clamps \<open>selectionIndex\<close> into
  \<open>[0, entryCount - 1]\<close>; when that selection has reached or passed \<open>scrollOffset + VISIBLE\<close>,
  the resulting \<open>scrollOffset\<close> is \<open>selectionIndex - (VISIBLE - 1)\<close> clamped into
  \<open>[0, max 0 (entryCount - VISIBLE)]\<close>, and from a non-negative \<open>scrollOffset\<close> the selection
  ends on the bottom visible row. With 7 entries, six \<^verbatim>\<open>onScroll\<close> calls after a load give
  \<open>selectionIndex = 6\<close> and \<open>scrollOffset = 2\<close>, and one more gives \<open>selectionIndex = 0\<close> and
  \<open>scrollOffset = 0\<close>.
\<close>

theorem clampScroll_pushes_to_bottom_row:
  "(0 < entryCount s \<longrightarrow>
      selectionIndex (clampScroll s) = max 0 (min (selectionIndex s) (entryCount s - 1)) \<and>
      (scrollOffset s + VISIBLE_ITEMS \<le> selectionIndex (clampScroll s) \<longrightarrow>
         scrollOffset (clampScroll s) =
           max 0 (min (selectionIndex (clampScroll s) - (VISIBLE_ITEMS - 1))
                      (max 0 (entryCount s - VISIBLE_ITEMS))) \<and>
         (0 \<le> scrollOffset s \<longrightarrow>
            selectionIndex (clampScroll s) = scrollOffset (clampScroll s) + (VISIBLE_ITEMS - 1))))
   \<and>
   (entryCount t = 7 \<and> array_ok t \<and> selectionIndex t = 0 \<and> scrollOffset t = 0 \<longrightarrow>
      (\<exists>s6 s7. scrolls 6 t = Some s6 \<and> selectionIndex s6 = 6 \<and> scrollOffset s6 = 2 \<and>
                onScroll s6 = Some s7 \<and> selectionIndex s7 = 0 \<and> scrollOffset s7 = 0))"
  using clampScroll_selection[of s] clampScroll_push[of s] clampScroll_bottom[of s]
    scrolls_seven[of t]
  by blast

theorem clampScroll_pushes_to_bottom_row_witness:
  "0 < entryCount (boot\<lparr>entryCount := 7, selectionIndex := 6, scrollOffset := 1\<rparr>) \<and>
   scrollOffset (boot\<lparr>entryCount := 7, selectionIndex := 6, scrollOffset := 1\<rparr>) + VISIBLE_ITEMS
     \<le> selectionIndex (clampScroll (boot\<lparr>entryCount := 7, selectionIndex := 6, scrollOffset := 1\<rparr>)) \<and>
   0 \<le> scrollOffset (boot\<lparr>entryCount := 7, selectionIndex := 6, scrollOffset := 1\<rparr>) \<and>
   scrollOffset (clampScroll (boot\<lparr>entryCount := 7, selectionIndex := 6, scrollOffset := 1\<rparr>)) = 2 \<and>
   selectionIndex (clampScroll (boot\<lparr>entryCount := 7, selectionIndex := 6, scrollOffset := 1\<rparr>)) = 6 \<and>
   entryCount (boot\<lparr>entryCount := 7\<rparr>) = 7 \<and> array_ok (boot\<lparr>entryCount := 7\<rparr>) \<and>
   selectionIndex (boot\<lparr>entryCount := 7\<rparr>) = 0 \<and> scrollOffset (boot\<lparr>entryCount := 7\<rparr>) = 0 \<and>
   (\<exists>s6 s7. scrolls 6 (boot\<lparr>entryCount := 7\<rparr>) = Some s6 \<and> selectionIndex s6 = 6 \<and>
       scrollOffset s6 = 2 \<and> onScroll s6 = Some s7 \<and> selectionIndex s7 = 0 \<and>
       scrollOffset s7 = 0)"
  using clampScroll_pushes_to_bottom_row
          [of "boot\<lparr>entryCount := 7, selectionIndex := 6, scrollOffset := 1\<rparr>"
              "boot\<lparr>entryCount := 7\<rparr>"]
  by (simp add: boot_def array_ok_def MAX_ENTRIES_def VISIBLE_ITEMS_def clampScroll_def)

lemma clampScroll_in_range:
  "0 \<le> selectionIndex s \<Longrightarrow> selectionIndex s < entryCount s \<Longrightarrow>
   selectionIndex (clampScroll s) = selectionIndex s"
  by (simp add: clampScroll_def Let_def)

lemma scrolls_selection:
  "0 \<le> selectionIndex s \<Longrightarrow> selectionIndex s < entryCount s \<Longrightarrow> array_ok s \<Longrightarrow>
   \<exists>s'. scrolls k s = Some s' \<and> entryCount s' = entryCount s \<and>
        selectionIndex s' = (selectionIndex s + int k) mod entryCount s"
proof (induction k arbitrary: s)
  case 0
  then show ?case by simp
next
  case (Suc k)
  from Suc.prems have pos: "0 < entryCount s" by simp
  from pos Suc.prems(3) obtain s1 where s1: "onScroll s = Some s1"
    "entryCount s1 = entryCount s" "entries s1 = entries s"
    "selectionIndex s1 = selectionIndex (clampScroll (advanced s))"
    by (rule onScroll_step)
  have adv: "selectionIndex (advanced s) = (selectionIndex s + 1) mod entryCount s"
  proof (cases "selectionIndex s + 1 = entryCount s")
    case True
    then show ?thesis by (simp add: advanced_def)
  next
    case False
    with Suc.prems(1,2) have "selectionIndex s + 1 < entryCount s" by simp
    with Suc.prems(1) show ?thesis by (simp add: advanced_def)
  qed
  have rng: "0 \<le> selectionIndex (advanced s)" "selectionIndex (advanced s) < entryCount (advanced s)"
    using Suc.prems(1,2) by (simp_all add: advanced_def)
  have sel1: "selectionIndex s1 = (selectionIndex s + 1) mod entryCount s"
    using s1(4) clampScroll_in_range[OF rng] adv by simp
  have ok1: "array_ok s1" using Suc.prems(3) s1(2,3) by (simp add: array_ok_def)
  have "0 \<le> selectionIndex s1" "selectionIndex s1 < entryCount s1"
    using sel1 s1(2) pos by simp_all
  from Suc.IH[OF this ok1] obtain s' where s': "scrolls k s1 = Some s'"
    "entryCount s' = entryCount s1"
    "selectionIndex s' = (selectionIndex s1 + int k) mod entryCount s1" by blast
  have "((selectionIndex s + 1) mod entryCount s + int k) mod entryCount s =
        (selectionIndex s + 1 + int k) mod entryCount s"
    by (rule mod_add_left_eq)
  then have "selectionIndex s' = (selectionIndex s + int (Suc k)) mod entryCount s"
    using s'(3) sel1 s1(2) by (simp add: add.assoc)
  with s'(1,2) s1(1,2) show ?case by simp
qed

section \<open>Loading a directory: lemmas\<close>

lemma loadLoop_other [simp]:
  "selectionIndex (loadLoop cs s) = selectionIndex s"
  "scrollOffset (loadLoop cs s) = scrollOffset s"
  "currentPath (loadLoop cs s) = currentPath s"
  "accesses (loadLoop cs s) = accesses s"
  by (induction cs s rule: loadLoop.induct; simp add: Let_def)+

lemma loadLoop_length [simp]: "length (entries (loadLoop cs s)) = length (entries s)"
  by (induction cs s rule: loadLoop.induct) (simp_all add: Let_def)

lemma loadLoop_count:
  "entryCount s \<le> MAX_ENTRIES \<Longrightarrow>
   entryCount (loadLoop cs s) = min MAX_ENTRIES (entryCount s + int (length cs))"
  by (induction cs s rule: loadLoop.induct) (simp_all add: Let_def SHOW_ONLY_STL_def add.assoc)

lemma loadLoop_prefix:
  "0 \<le> entryCount s \<Longrightarrow> entryCount s \<le> MAX_ENTRIES \<Longrightarrow>
   length (entries s) = nat MAX_ENTRIES \<Longrightarrow>
   take (nat (entryCount (loadLoop cs s))) (entries (loadLoop cs s)) =
     take (nat (entryCount s)) (entries s) @
     map toEntry (take (nat (MAX_ENTRIES - entryCount s)) cs)"
proof (induction cs s rule: loadLoop.induct)
  case (1 s)
  then show ?case by simp
next
  case (2 nm isD rest s)
  show ?case
  proof (cases "entryCount s < MAX_ENTRIES")
    case False
    with "2.prems" show ?thesis by simp
  next
    case True
    let ?e = "\<lparr>name = take 31 nm, isDir = isD\<rparr>"
    let ?s' = "s\<lparr>entries := (entries s)[nat (entryCount s) := ?e],
                 entryCount := entryCount s + 1\<rparr>"
    have step: "loadLoop ((nm, isD) # rest) s = loadLoop rest ?s'"
      using True by (simp add: Let_def SHOW_ONLY_STL_def)
    have ih: "take (nat (entryCount (loadLoop rest ?s'))) (entries (loadLoop rest ?s')) =
       take (nat (entryCount ?s')) (entries ?s') @
       map toEntry (take (nat (MAX_ENTRIES - entryCount ?s')) rest)"
      using "2.IH"[OF True refl, of ?s'] True "2.prems" by (simp add: SHOW_ONLY_STL_def)
    have n: "nat (entryCount s) < length (entries s)" using True "2.prems" by simp
    have "take (nat (entryCount ?s')) (entries ?s') = take (nat (entryCount s)) (entries s) @ [?e]"
    proof -
      have "nat (entryCount s + 1) = Suc (nat (entryCount s))" using "2.prems"(1) by simp
      then show ?thesis using n by (simp add: take_Suc_conv_app_nth)
    qed
    moreover have "nat (MAX_ENTRIES - entryCount s) = Suc (nat (MAX_ENTRIES - entryCount ?s'))"
      using True by simp
    ultimately show ?thesis using ih step by (simp add: toEntry_def)
  qed
qed

lemma loadDirectory_fail:
  "sd path = None \<or> sd path = Some RegularFile \<Longrightarrow>
   loadDirectory sd path s = (False, s\<lparr>entryCount := 0, selectionIndex := 0, scrollOffset := 0\<rparr>)"
  by (auto simp: loadDirectory_def)

lemma loadDirectory_dir:
  "sd path = Some (Directory cs) \<Longrightarrow>
   loadDirectory sd path s =
     (True, clampScroll (loadLoop cs (s\<lparr>entryCount := 0, selectionIndex := 0, scrollOffset := 0\<rparr>)))"
  by (simp add: loadDirectory_def)

lemma loadDirectory_cases:
  obtains (fail) "sd path = None \<or> sd path = Some RegularFile"
  | (dir) cs where "sd path = Some (Directory cs)"
  by (cases "sd path") (auto intro: node.exhaust)

lemma clampScroll_zero:
  "selectionIndex s = 0 \<Longrightarrow> scrollOffset s = 0 \<Longrightarrow>
   clampScroll s = s"
  by (simp add: clampScroll_def Let_def VISIBLE_ITEMS_def)

text \<open>
  C9. \<^verbatim>\<open>loadDirectory\<close> returns failure exactly when the path cannot be opened or opens
  as something that is not a directory, and then the state it leaves is the state before the
  call with \<open>entryCount\<close>, \<open>selectionIndex\<close> and \<open>scrollOffset\<close> set to 0: the listing in memory
  is empty, not the directory loaded before.
\<close>

theorem loadDirectory_failure_resets:
  "(\<not> fst (loadDirectory sd path s)) = (sd path = None \<or> sd path = Some RegularFile) \<and>
   (\<not> fst (loadDirectory sd path s) \<longrightarrow>
      snd (loadDirectory sd path s) =
        s\<lparr>entryCount := 0, selectionIndex := 0, scrollOffset := 0\<rparr>)"
  by (cases rule: loadDirectory_cases[of sd path])
     (auto simp: loadDirectory_fail loadDirectory_dir)

theorem loadDirectory_failure_resets_witness:
  "\<not> fst (loadDirectory (\<lambda>p. None) ''/gone'' (boot\<lparr>entryCount := 3, selectionIndex := 2\<rparr>)) \<and>
   snd (loadDirectory (\<lambda>p. None) ''/gone'' (boot\<lparr>entryCount := 3, selectionIndex := 2\<rparr>)) = boot"
  using loadDirectory_failure_resets
     [of "\<lambda>p. None" "''/gone''" "boot\<lparr>entryCount := 3, selectionIndex := 2\<rparr>"]
  by (simp add: boot_def)

text \<open>
  C5. For a directory that yields more than 50 children (the extension filter is off:
  \<open>SHOW_ONLY_STL = False\<close>), \<^verbatim>\<open>loadDirectory\<close> returns success, \<open>entryCount\<close> is 50 and the
  array holds the entries of the first 50 children, in the order of the enumeration (each
  name cut to the 31 characters of the name field); the other children are dropped.
\<close>

theorem loadDirectory_keeps_first_50:
  assumes "sd path = Some (Directory cs)" and "50 < length cs"
    and "length (entries s) = nat MAX_ENTRIES"
  shows "fst (loadDirectory sd path s) \<and>
         entryCount (snd (loadDirectory sd path s)) = 50 \<and>
         entries (snd (loadDirectory sd path s)) = map toEntry (take 50 cs) \<and>
         selectionIndex (snd (loadDirectory sd path s)) = 0 \<and>
         scrollOffset (snd (loadDirectory sd path s)) = 0"
proof -
  let ?s0 = "s\<lparr>entryCount := 0, selectionIndex := 0, scrollOffset := 0\<rparr>"
  let ?l = "loadLoop cs ?s0"
  have cnt: "entryCount ?l = 50"
    using loadLoop_count[of ?s0 cs] assms(2) by (simp add: MAX_ENTRIES_def)
  have "take (nat (entryCount ?l)) (entries ?l) =
        take (nat (entryCount ?s0)) (entries ?s0) @
          map toEntry (take (nat (MAX_ENTRIES - entryCount ?s0)) cs)"
    by (rule loadLoop_prefix) (simp_all add: assms(3) MAX_ENTRIES_def)
  moreover have "length (entries ?l) = 50" using assms(3) by (simp add: MAX_ENTRIES_def)
  ultimately have ent: "entries ?l = map toEntry (take 50 cs)"
    using cnt by (simp add: MAX_ENTRIES_def)
  have "clampScroll ?l = ?l" by (rule clampScroll_zero) simp_all
  then have "loadDirectory sd path s = (True, ?l)"
    using assms(1) by (simp add: loadDirectory_dir)
  with cnt ent show ?thesis by simp
qed

theorem loadDirectory_keeps_first_50_witness:
  "crowdedCard ''/'' = Some (Directory crowded) \<and> 50 < length crowded \<and>
   length (entries boot) = nat MAX_ENTRIES \<and>
   fst (loadDirectory crowdedCard ''/'' boot) \<and>
   entryCount (snd (loadDirectory crowdedCard ''/'' boot)) = 50 \<and>
   entries (snd (loadDirectory crowdedCard ''/'' boot)) = map toEntry (take 50 crowded) \<and>
   selectionIndex (snd (loadDirectory crowdedCard ''/'' boot)) = 0 \<and>
   scrollOffset (snd (loadDirectory crowdedCard ''/'' boot)) = 0"
  using loadDirectory_keeps_first_50 [of crowdedCard "''/''" crowded boot]
  by (simp add: crowdedCard_def crowded_def boot_def MAX_ENTRIES_def)

section \<open>Paths: lemmas\<close>

lemma strrchr_absent: "c \<notin> set xs \<Longrightarrow> strrchr xs c = None"
  by (induction xs) auto

lemma strrchr_last: "c \<notin> set ys \<Longrightarrow> strrchr (xs @ c # ys) c = Some (length xs)"
  by (induction xs) (simp_all add: strrchr_absent)

lemma goParent_child:
  assumes "p \<noteq> []" and "n \<noteq> []" and "CHR ''/'' \<notin> set n"
  shows "goParent (p @ CHR ''/'' # n) = p"
proof -
  let ?path = "p @ CHR ''/'' # n"
  have ne: "?path \<noteq> ''/''" using assms(1) by (cases p) simp_all
  have "?path ! (length ?path - 1) = last ?path" by (simp add: last_conv_nth)
  also have "\<dots> = last n" using assms(2) by simp
  finally have "?path ! (length ?path - 1) \<noteq> CHR ''/''" using assms(2,3) last_in_set by metis
  then have "goParent ?path =
      (case strrchr ?path CHR ''/'' of None \<Rightarrow> ''/''
       | Some lastSlash \<Rightarrow> if lastSlash = 0 then take 1 ?path else take lastSlash ?path)"
    using ne unfolding goParent_def Let_def by (simp only: if_False simp_thms)
  also have "\<dots> = p" using assms(1,3) by (simp add: strrchr_last)
  finally show ?thesis .
qed

lemma goParent_top:
  assumes "n \<noteq> []" and "CHR ''/'' \<notin> set n"
  shows "goParent (CHR ''/'' # n) = ''/''"
proof -
  let ?path = "CHR ''/'' # n"
  have ne: "?path \<noteq> ''/''" using assms(1) by simp
  have "?path ! (length ?path - 1) = last ?path" by (simp add: last_conv_nth)
  also have "\<dots> = last n" using assms(1) by simp
  finally have "?path ! (length ?path - 1) \<noteq> CHR ''/''" using assms last_in_set by metis
  then have "goParent ?path =
      (case strrchr ?path CHR ''/'' of None \<Rightarrow> ''/''
       | Some lastSlash \<Rightarrow> if lastSlash = 0 then take 1 ?path else take lastSlash ?path)"
    using ne unfolding goParent_def Let_def by (simp only: if_False simp_thms)
  also have "\<dots> = ''/''" using assms(2) by (simp add: strrchr_absent)
  finally show ?thesis .
qed

text \<open>
  \<^verbatim>\<open>snprintf\<close> cuts the joined path at 79 characters. Joining a valid path of 78 characters
  with the name \<open>b\<close> yields that path with a trailing slash; \<^verbatim>\<open>goParent\<close> strips the slash and
  then removes the last segment, so the round trip ends at the root.
\<close>

theorem goParent_pathJoin_truncated:
  "longPath \<noteq> ''/'' \<and> hd longPath = CHR ''/'' \<and> last longPath \<noteq> CHR ''/'' \<and>
   length longPath = 78 \<and> CHR ''/'' \<notin> set ''b'' \<and>
   pathJoin 80 longPath ''b'' = longPath @ ''/'' \<and>
   goParent (pathJoin 80 longPath ''b'') = ''/'' \<and>
   goParent (pathJoin 80 longPath ''b'') \<noteq> longPath"
  by code_simp

text \<open>An empty child name breaks the round trip in the same way.\<close>

lemma goParent_pathJoin_empty_name: "goParent (pathJoin 80 ''/a'' '''') = ''/''"
  by (simp add: pathJoin_def goParent_def)

text \<open>
  C4 (amended). For every non-empty path \<open>p\<close> of at most 77 characters (every valid path of
  that length, the root included) and every non-empty child name without \<open>/\<close>,
  \<^verbatim>\<open>goParent\<close> of \<^verbatim>\<open>pathJoin\<close> of \<open>p\<close> and the name, joined into a buffer of 80 bytes as
  \<^verbatim>\<open>onEnter\<close> does, is \<open>p\<close>.
\<close>

theorem goParent_pathJoin:
  assumes "p \<noteq> []" and "length p \<le> 77" and "n \<noteq> []" and "CHR ''/'' \<notin> set n"
  shows "goParent (pathJoin 80 p n) = p"
proof (cases "p = ''/''")
  case True
  have "take 78 n \<noteq> []" using assms(3) by simp
  moreover have "CHR ''/'' \<notin> set (take 78 n)" using assms(4) by (auto dest: in_set_takeD)
  ultimately have "goParent (CHR ''/'' # take 78 n) = ''/''" by (rule goParent_top)
  with True show ?thesis by (simp add: pathJoin_def)
next
  case False
  let ?n = "take (78 - length p) n"
  have "?n \<noteq> []" using assms(2,3) by simp
  moreover have "CHR ''/'' \<notin> set ?n" using assms(4) by (auto dest: in_set_takeD)
  ultimately have "goParent (p @ CHR ''/'' # ?n) = p" using assms(1) by (intro goParent_child)
  moreover have "pathJoin 80 p n = p @ CHR ''/'' # ?n"
  proof -
    have "79 - length p = Suc (78 - length p)" using assms(2) by simp
    then show ?thesis using False assms(2) by (simp add: pathJoin_def)
  qed
  ultimately show ?thesis by simp
qed

theorem goParent_pathJoin_witness:
  "''/a/b'' \<noteq> [] \<and> length ''/a/b'' \<le> 77 \<and> ''c.stl'' \<noteq> [] \<and> CHR ''/'' \<notin> set ''c.stl'' \<and>
   pathJoin 80 ''/a/b'' ''c.stl'' = ''/a/b/c.stl'' \<and>
   goParent (pathJoin 80 ''/a/b'' ''c.stl'') = ''/a/b''"
  using goParent_pathJoin [of "''/a/b''" "''c.stl''"]
  by (simp add: pathJoin_def)

section \<open>Enter and Back: lemmas\<close>

lemma loadLoop_depends:
  "entries s = entries t \<Longrightarrow> entryCount s = entryCount t \<Longrightarrow>
   entries (loadLoop cs s) = entries (loadLoop cs t) \<and>
   entryCount (loadLoop cs s) = entryCount (loadLoop cs t)"
proof (induction cs s arbitrary: t rule: loadLoop.induct)
  case (1 s)
  then show ?case by simp
next
  case (2 nm isD rest s)
  show ?case
  proof (cases "entryCount s < MAX_ENTRIES")
    case False
    with "2.prems" show ?thesis by simp
  next
    case True
    let ?e = "\<lparr>name = take 31 nm, isDir = isD\<rparr>"
    let ?s' = "s\<lparr>entries := (entries s)[nat (entryCount s) := ?e],
                 entryCount := entryCount s + 1\<rparr>"
    let ?t' = "t\<lparr>entries := (entries t)[nat (entryCount t) := ?e],
                 entryCount := entryCount t + 1\<rparr>"
    have "entries (loadLoop rest ?s') = entries (loadLoop rest ?t') \<and>
          entryCount (loadLoop rest ?s') = entryCount (loadLoop rest ?t')"
      using "2.IH"[OF True refl, of ?s' ?t'] "2.prems" by (simp add: SHOW_ONLY_STL_def)
    then show ?thesis using True "2.prems" by (simp add: Let_def SHOW_ONLY_STL_def)
  qed
qed

lemma loadDirectory_after:
  assumes "length (entries s) = nat MAX_ENTRIES"
  shows "array_ok (snd (loadDirectory sd path s))"
    and "selectionIndex (snd (loadDirectory sd path s)) = 0"
    and "scrollOffset (snd (loadDirectory sd path s)) = 0"
    and "0 \<le> entryCount (snd (loadDirectory sd path s))"
    and "currentPath (snd (loadDirectory sd path s)) = currentPath s"
    and "accesses (snd (loadDirectory sd path s)) = accesses s"
proof -
  let ?s0 = "s\<lparr>entryCount := 0, selectionIndex := 0, scrollOffset := 0\<rparr>"
  have z: "clampScroll (loadLoop cs ?s0) = loadLoop cs ?s0" for cs
    by (rule clampScroll_zero) simp_all
  have c: "entryCount (loadLoop cs ?s0) = min MAX_ENTRIES (int (length cs))" for cs
    using loadLoop_count[of ?s0 cs] by (simp add: MAX_ENTRIES_def)
  show "array_ok (snd (loadDirectory sd path s))"
    by (cases rule: loadDirectory_cases[of sd path])
       (auto simp: loadDirectory_fail loadDirectory_dir z c array_ok_def assms MAX_ENTRIES_def)
  show "selectionIndex (snd (loadDirectory sd path s)) = 0"
    by (cases rule: loadDirectory_cases[of sd path])
       (auto simp: loadDirectory_fail loadDirectory_dir z)
  show "scrollOffset (snd (loadDirectory sd path s)) = 0"
    by (cases rule: loadDirectory_cases[of sd path])
       (auto simp: loadDirectory_fail loadDirectory_dir z)
  show "0 \<le> entryCount (snd (loadDirectory sd path s))"
    by (cases rule: loadDirectory_cases[of sd path])
       (auto simp: loadDirectory_fail loadDirectory_dir z c MAX_ENTRIES_def)
  show "currentPath (snd (loadDirectory sd path s)) = currentPath s"
    by (cases rule: loadDirectory_cases[of sd path])
       (auto simp: loadDirectory_fail loadDirectory_dir z)
  show "accesses (snd (loadDirectory sd path s)) = accesses s"
    by (cases rule: loadDirectory_cases[of sd path])
       (auto simp: loadDirectory_fail loadDirectory_dir z)
qed

lemma loadDirectory_depends:
  assumes "entries s = entries t"
  shows "fst (loadDirectory sd path s) = fst (loadDirectory sd path t)"
    and "listing (snd (loadDirectory sd path s)) = listing (snd (loadDirectory sd path t))"
proof -
  let ?s0 = "s\<lparr>entryCount := 0, selectionIndex := 0, scrollOffset := 0\<rparr>"
  let ?t0 = "t\<lparr>entryCount := 0, selectionIndex := 0, scrollOffset := 0\<rparr>"
  have z: "clampScroll (loadLoop cs ?s0) = loadLoop cs ?s0"
          "clampScroll (loadLoop cs ?t0) = loadLoop cs ?t0" for cs
    by (rule clampScroll_zero; simp)+
  have d: "entries (loadLoop cs ?s0) = entries (loadLoop cs ?t0) \<and>
           entryCount (loadLoop cs ?s0) = entryCount (loadLoop cs ?t0)" for cs
    by (rule loadLoop_depends) (simp_all add: assms)
  show "fst (loadDirectory sd path s) = fst (loadDirectory sd path t)"
    by (cases rule: loadDirectory_cases[of sd path])
       (auto simp: loadDirectory_fail loadDirectory_dir)
  show "listing (snd (loadDirectory sd path s)) = listing (snd (loadDirectory sd path t))"
    by (cases rule: loadDirectory_cases[of sd path])
       (auto simp: loadDirectory_fail loadDirectory_dir z d listing_def assms)
qed

lemma loadDirectory_failed_state:
  "\<not> fst (loadDirectory sd path s) \<Longrightarrow>
   snd (loadDirectory sd path s) = s\<lparr>entryCount := 0, selectionIndex := 0, scrollOffset := 0\<rparr>"
  by (cases rule: loadDirectory_cases[of sd path])
     (auto simp: loadDirectory_fail loadDirectory_dir)

lemma goParent_length: "length p \<le> 79 \<Longrightarrow> length (goParent p) \<le> 79"
  by (auto simp: goParent_def Let_def split: option.splits)

lemma drawUI_listing: "drawUI s = Some s' \<Longrightarrow> listing s' = listing s \<and> currentPath s' = currentPath s"
  by (simp add: listing_def drawUI_fields)

text \<open>
  C7. Back with \<open>currentPath\<close> other than the root (a path that fits its buffer of 80 bytes):
  \<^verbatim>\<open>onBack\<close> returns, having tried to load \<^verbatim>\<open>goParent\<close> of \<open>currentPath\<close>. When that load
  succeeds, \<open>currentPath\<close> is the parent and the listing is the one loaded from it; when it
  fails, \<open>currentPath\<close> is \<open>/\<close> and the listing is whatever loading the root leaves, with no
  test of that second result.
\<close>

theorem onBack_parent_or_root:
  assumes "currentPath s \<noteq> ''/''" and "length (currentPath s) \<le> 79"
    and "length (entries s) = nat MAX_ENTRIES"
  shows "\<exists>s'. onBack sd s = Some s' \<and>
           (if fst (loadDirectory sd (goParent (currentPath s)) s)
            then currentPath s' = goParent (currentPath s) \<and>
                 listing s' = listing (snd (loadDirectory sd (goParent (currentPath s)) s))
            else currentPath s' = ''/'' \<and>
                 listing s' = listing (snd (loadDirectory sd ''/'' s)))"
proof -
  let ?p = "goParent (currentPath s)"
  let ?r = "loadDirectory sd ?p s"
  have tk: "take 79 (currentPath s) = currentPath s" using assms(2) by simp
  have tp: "take 79 ?p = ?p" using goParent_length[OF assms(2)] by simp
  show ?thesis
  proof (cases "fst ?r")
    case True
    let ?s1 = "(snd ?r)\<lparr>currentPath := ?p\<rparr>"
    have "array_ok ?s1" "0 \<le> scrollOffset ?s1"
      using loadDirectory_after(1,3)[OF assms(3), of sd ?p] by (simp_all add: array_ok_def)
    then obtain s' where d: "drawUI ?s1 = Some s'" using drawUI_total by blast
    have "onBack sd s = drawUI ?s1"
      using assms(1) True tk tp by (auto simp: onBack_def Let_def split: prod.splits bool.splits)
    moreover have "listing s' = listing (snd ?r)" "currentPath s' = ?p"
      using drawUI_listing[OF d] by (simp_all add: listing_def)
    ultimately show ?thesis using True d by simp
  next
    case False
    let ?s1 = "(snd ?r)\<lparr>currentPath := ''/''\<rparr>"
    let ?s2 = "snd (loadDirectory sd ''/'' ?s1)"
    have len: "length (entries ?s1) = nat MAX_ENTRIES"
      using loadDirectory_after(1)[OF assms(3), of sd ?p] by (simp add: array_ok_def)
    have "array_ok ?s2" "0 \<le> scrollOffset ?s2"
      using loadDirectory_after(1,3)[OF len, of sd "''/''"] by simp_all
    then obtain s' where d: "drawUI ?s2 = Some s'" using drawUI_total by blast
    have "onBack sd s = drawUI ?s2"
      using assms(1) False tk by (auto simp: onBack_def Let_def split: prod.splits bool.splits)
    moreover have "entries ?s1 = entries s"
      using False loadDirectory_failed_state[of sd ?p s] by simp
    then have "listing ?s2 = listing (snd (loadDirectory sd ''/'' s))"
      by (rule loadDirectory_depends(2))
    moreover have "currentPath ?s2 = ''/''"
      using loadDirectory_after(5)[OF len, of sd "''/''"] by simp
    ultimately show ?thesis using False d drawUI_listing[OF d] by simp
  qed
qed

theorem onBack_parent_or_root_witness:
  "currentPath (boot\<lparr>currentPath := ''/A''\<rparr>) \<noteq> ''/'' \<and>
   length (currentPath (boot\<lparr>currentPath := ''/A''\<rparr>)) \<le> 79 \<and>
   length (entries (boot\<lparr>currentPath := ''/A''\<rparr>)) = nat MAX_ENTRIES \<and>
   fst (loadDirectory twoDirs (goParent ''/A'') (boot\<lparr>currentPath := ''/A''\<rparr>)) \<and>
   \<not> fst (loadDirectory (\<lambda>p. None) (goParent ''/A'') (boot\<lparr>currentPath := ''/A''\<rparr>)) \<and>
   (\<exists>s'. onBack twoDirs (boot\<lparr>currentPath := ''/A''\<rparr>) = Some s' \<and>
         currentPath s' = ''/'' \<and>
         listing s' = listing (snd (loadDirectory twoDirs ''/'' (boot\<lparr>currentPath := ''/A''\<rparr>)))) \<and>
   (\<exists>s'. onBack (\<lambda>p. None) (boot\<lparr>currentPath := ''/A''\<rparr>) = Some s' \<and>
         currentPath s' = ''/'' \<and>
         listing s' = listing (snd (loadDirectory (\<lambda>p. None) ''/'' (boot\<lparr>currentPath := ''/A''\<rparr>))))"
  using onBack_parent_or_root [of "boot\<lparr>currentPath := ''/A''\<rparr>" twoDirs]
    onBack_parent_or_root [of "boot\<lparr>currentPath := ''/A''\<rparr>" "\<lambda>p. None"]
  by (simp add: boot_def MAX_ENTRIES_def goParent_def loadDirectory_def twoDirs_def)

text \<open>
  C1, evaluated on a card whose root lists the directories \<open>A\<close> and \<open>B\<close>, of which \<open>/B\<close> cannot
  be opened. After the load of the root and one Scroll the selection is on \<open>B\<close>. Enter then
  leaves \<open>currentPath\<close> and the array as they were, but \<open>entryCount\<close> and \<open>selectionIndex\<close> are
  0: the listing is empty, and from there Scroll, Enter and Back change nothing.
\<close>

theorem onEnter_failed_open_empties_listing:
  "(case onScroll (snd (loadDirectory twoDirs ''/'' boot)) of
      None \<Rightarrow> False
    | Some s \<Rightarrow>
        entryCount s = 2 \<and> selectionIndex s = 1 \<and> scrollOffset s = 0 \<and> currentPath s = ''/'' \<and>
        entries s ! 1 = \<lparr>name = ''B'', isDir = True\<rparr> \<and>
        twoDirs (pathJoin 80 (currentPath s) ''B'') = None \<and>
        (case onEnter twoDirs s of
           None \<Rightarrow> False
         | Some s' \<Rightarrow>
             currentPath s' = currentPath s \<and> entries s' = entries s \<and>
             entryCount s' = 0 \<and> selectionIndex s' = 0 \<and> scrollOffset s' = 0 \<and>
             onScroll s' = Some s' \<and> onEnter twoDirs s' = Some s' \<and> onBack twoDirs s' = Some s'))"
  by code_simp

text \<open>
  C10, evaluated on the same card. Before Enter every logged read was inside
  \<open>[0, entryCount)\<close> and the selection was in range. Enter reads \<^verbatim>\<open>entries[1]\<close> twice with
  \<open>entryCount = 2\<close> and, after the failed load, \<^verbatim>\<open>entries[0]\<close> with \<open>entryCount = 0\<close> for the
  overlay: a read outside \<open>[0, entryCount)\<close>, of the name \<open>A\<close> rather than \<open>B\<close>.
\<close>

theorem onEnter_failed_open_reads_stale_entry:
  "(case onScroll (snd (loadDirectory twoDirs ''/'' boot)) of
      None \<Rightarrow> False
    | Some s \<Rightarrow>
        reads_ok s \<and> scroll_inv s \<and> array_ok s \<and>
        0 \<le> selectionIndex s \<and> selectionIndex s < entryCount s \<and>
        (case onEnter twoDirs s of
           None \<Rightarrow> False
         | Some s' \<Rightarrow>
             accesses s' = accesses s @ [(1, 2), (1, 2), (0, 0)] \<and> \<not> reads_ok s' \<and>
             name (entries s' ! 0) = ''A''))"
  by code_simp

text \<open>What does hold of the reads: with an empty listing Scroll and Enter do nothing; Scroll
  keeps every read inside \<open>[0, entryCount)\<close> and the selection in range; Enter never reads
  outside the array.\<close>

lemma onScroll_empty: "entryCount s \<le> 0 \<Longrightarrow> onScroll s = Some s"
  by (simp add: onScroll_def)

lemma onEnter_empty: "entryCount s \<le> 0 \<Longrightarrow> onEnter sd s = Some s"
  by (simp add: onEnter_def)

lemma onScroll_reads_in_listing:
  assumes "0 < entryCount s" "array_ok s" "reads_ok s"
  shows "\<exists>s'. onScroll s = Some s' \<and> reads_ok s' \<and>
              0 \<le> selectionIndex s' \<and> selectionIndex s' < entryCount s'"
proof -
  from assms(1,2) obtain s' where s': "onScroll s = Some s'"
    "entryCount s' = entryCount s"
    "selectionIndex s' = selectionIndex (clampScroll (advanced s))"
    by (rule onScroll_step)
  have d: "drawUI (clampScroll (advanced s)) = Some s'"
    using s'(1) assms(1) by (simp add: onScroll_pos)
  have "reads_ok (clampScroll (advanced s))"
    using assms(3) by (simp add: reads_ok_def advanced_def)
  with d have "reads_ok s'" by (rule drawUI_reads[OF _ clampScroll_off_nonneg])
  moreover have "0 < entryCount (advanced s)" using assms(1) by (simp add: advanced_def)
  then have "0 \<le> selectionIndex (clampScroll (advanced s)) \<and>
             selectionIndex (clampScroll (advanced s)) < entryCount (advanced s)"
    by (rule clampScroll_sel)
  ultimately show ?thesis using s' by (simp add: advanced_def)
qed

lemma onEnter_reads_in_array:
  assumes "0 \<le> selectionIndex s" "selectionIndex s < entryCount s" "array_ok s"
    "0 \<le> scrollOffset s"
  shows "\<exists>s'. onEnter sd s = Some s'"
proof -
  let ?i = "selectionIndex s"
  let ?s1 = "s\<lparr>accesses := accesses s @ [(?i, entryCount s)]\<rparr>"
  let ?s2 = "?s1\<lparr>accesses := accesses ?s1 @ [(?i, entryCount s)]\<rparr>"
  let ?e = "entries s ! nat ?i"
  have len: "length (entries s) = nat MAX_ENTRIES" using assms(3) by (simp add: array_ok_def)
  have inb: "?i < MAX_ENTRIES" "nat ?i < length (entries s)"
    using assms(1,2,3) by (simp_all add: array_ok_def)
  have r1: "readEntry s ?i = Some (?e, ?s1)" using assms(1) inb by (simp add: readEntry_in)
  have r2: "readEntry ?s1 ?i = Some (?e, ?s2)" using assms(1) inb by (simp add: readEntry_in)
  have ok2: "array_ok ?s2" "0 \<le> scrollOffset ?s2" "length (entries ?s2) = nat MAX_ENTRIES"
    using assms(3,4) by (simp_all add: array_ok_def)
  show ?thesis
  proof (cases "isDir ?e")
    case False
    from ok2 obtain s' where "drawUI ?s2 = Some s'" using drawUI_total by blast
    then show ?thesis using assms(2) r1 r2 False by (simp add: onEnter_def)
  next
    case True
    let ?np = "pathJoin 80 (currentPath ?s2) (name ?e)"
    let ?r = "loadDirectory sd ?np ?s2"
    note after = loadDirectory_after[OF ok2(3), of sd ?np]
    show ?thesis
    proof (cases "fst ?r")
      case ok: True
      let ?s3 = "(snd ?r)\<lparr>currentPath := take 79 ?np\<rparr>"
      have "array_ok ?s3" "0 \<le> scrollOffset ?s3"
        using after(1,3) by (simp_all add: array_ok_def)
      then obtain s' where "drawUI ?s3 = Some s'" using drawUI_total by blast
      then show ?thesis using assms(2) r1 r2 True ok
        by (auto simp: onEnter_def Let_def split: prod.splits bool.splits)
    next
      case failed: False
      let ?s3 = "snd ?r"
      let ?s4 = "?s3\<lparr>accesses := accesses ?s3 @ [(selectionIndex ?s3, entryCount ?s3)]\<rparr>"
      have "readEntry ?s3 (selectionIndex ?s3) = Some (entries ?s3 ! nat (selectionIndex ?s3), ?s4)"
        using after(1,2) by (intro readEntry_in) (simp_all add: array_ok_def MAX_ENTRIES_def)
      moreover have "array_ok ?s4" "0 \<le> scrollOffset ?s4"
        using after(1,3) by (simp_all add: array_ok_def)
      then obtain s' where "drawUI ?s4 = Some s'" using drawUI_total by blast
      ultimately show ?thesis using assms(2) r1 r2 True failed
        by (auto simp: onEnter_def Let_def split: prod.splits bool.splits)
    qed
  qed
qed

section \<open>Debounced buttons: lemmas\<close>

declare waitRelease.simps [code]

lemma waitRelease_facts:
  assumes "waitRelease pin b = Some b'"
  shows "wait_post pin b b'"
proof (rule waitRelease.raw_induct[where P = wait_post, OF _ assms])
  fix wr :: "(nat \<Rightarrow> bool) \<Rightarrow> button \<Rightarrow> button option" and pin b b'
  assume IH: "\<And>pin b y. wr pin b = Some y \<Longrightarrow> wait_post pin b y"
    and body: "(case digitalRead pin b of
                  (level, b1) \<Rightarrow> if level = LOW then wr pin (delay 5 b1) else Some b1) = Some b'"
  let ?b1 = "b\<lparr>sampled := sampled b @ [clock b]\<rparr>"
  show "wait_post pin b b'"
  proof (cases "pin (clock b)")
    case True
    with body have "b' = ?b1" by (simp add: digitalRead_def LOW_def)
    with True show ?thesis by (auto simp: wait_post_def)
  next
    case False
    let ?b2 = "delay 5 ?b1"
    from False body have "wr pin ?b2 = Some b'"
      by (simp add: digitalRead_def LOW_def)
    then have "wait_post pin ?b2 b'" by (rule IH)
    then have ih: "clock ?b2 \<le> clock b'" "pin (clock b')" "clock b' \<in> set (sampled b')"
      "set (sampled ?b2) \<subseteq> set (sampled b')"
      "\<forall>u \<in> set (sampled b'). u \<in> set (sampled ?b2) \<or>
             (clock ?b2 \<le> u \<and> u \<le> clock b' \<and> (u < clock b' \<longrightarrow> \<not> pin u))"
      "lastState b' = lastState ?b2" "lastTime b' = lastTime ?b2" "presses b' = presses ?b2"
      unfolding wait_post_def by blast+
    have c2: "clock ?b2 = clock b + 5" "sampled ?b2 = sampled b @ [clock b]"
      "lastState ?b2 = lastState b" "lastTime ?b2 = lastTime b" "presses ?b2 = presses b"
      by (simp_all add: delay_def)
    have "\<forall>u \<in> set (sampled b'). u \<in> set (sampled b) \<or>
             (clock b \<le> u \<and> u \<le> clock b' \<and> (u < clock b' \<longrightarrow> \<not> pin u))"
    proof
      fix u assume "u \<in> set (sampled b')"
      with ih(5) have "u \<in> set (sampled ?b2) \<or>
             (clock ?b2 \<le> u \<and> u \<le> clock b' \<and> (u < clock b' \<longrightarrow> \<not> pin u))" by blast
      then show "u \<in> set (sampled b) \<or>
             (clock b \<le> u \<and> u \<le> clock b' \<and> (u < clock b' \<longrightarrow> \<not> pin u))"
        using c2(1,2) ih(1) False by auto
    qed
    then show ?thesis using ih(1,2,3,4,6,7,8) c2 unfolding wait_post_def by auto
  qed
qed

lemma waitRelease_returns:
  "pin (clock b + 5 * k) \<Longrightarrow> \<exists>b'. waitRelease pin b = Some b'"
proof (induction k arbitrary: b)
  case 0
  then show ?case by (subst waitRelease.simps) (simp add: digitalRead_def LOW_def)
next
  case (Suc k)
  show ?case
  proof (cases "pin (clock b)")
    case True
    then show ?thesis by (subst waitRelease.simps) (simp add: digitalRead_def LOW_def)
  next
    case False
    let ?b2 = "delay 5 (b\<lparr>sampled := sampled b @ [clock b]\<rparr>)"
    have "pin (clock ?b2 + 5 * k)" using Suc.prems by (simp add: delay_def add.assoc)
    then have "\<exists>b'. waitRelease pin ?b2 = Some b'" by (rule Suc.IH)
    moreover have "waitRelease pin b = waitRelease pin ?b2"
      using False by (subst waitRelease.simps) (simp add: digitalRead_def LOW_def)
    ultimately show ?thesis by simp
  qed
qed

lemma elapsed_le:
  assumes "t0 \<le> t"
  shows "unat (of_nat t - of_nat t0 :: 32 word) \<le> t - t0"
proof -
  have "(of_nat t - of_nat t0 :: 32 word) = of_nat (t - t0)" using assms by simp
  then show ?thesis by (simp add: unat_of_nat)
qed

lemma buttonPressed_unfold:
  "buttonPressed pin b =
     (if \<not> pin (clock b) \<and> DEBOUNCE_MS < unat (of_nat (clock b) - lastTime (noted pin b))
      then (case waitRelease pin (noted pin b) of
              None \<Rightarrow> None
            | Some b3 \<Rightarrow>
                Some (True, b3\<lparr>lastState := True, lastTime := of_nat (clock b3)\<rparr>))
      else Some (False, noted pin b))"
  by (auto simp: buttonPressed_def digitalRead_def noted_def millis_def LOW_def HIGH_def Let_def
           split: option.splits)

lemma noted_fields [simp]:
  "clock (noted pin b) = clock b"
  "sampled (noted pin b) = sampled b @ [clock b]"
  "presses (noted pin b) = presses b"
  by (simp_all add: noted_def)

lemma press_ok_mono:
  assumes "press_ok pin smp p" and "set smp \<subseteq> set smp'"
    and "\<forall>u \<in> set smp'. u \<in> set smp \<or> snd p \<le> u"
  shows "press_ok pin smp' p"
proof -
  from assms(1) obtain t0 where t0: "t0 \<in> set smp" "t0 + DEBOUNCE_MS < fst p"
      "\<forall>u \<in> set smp. t0 \<le> u \<and> u \<le> fst p \<longrightarrow> pin u = LOW"
    and rest: "fst p < snd p" "snd p \<in> set smp" "pin (snd p) = HIGH"
      "\<forall>u \<in> set smp. fst p \<le> u \<and> u < snd p \<longrightarrow> pin u = LOW"
    unfolding press_ok_def by blast
  have "\<forall>u \<in> set smp'. t0 \<le> u \<and> u \<le> fst p \<longrightarrow> pin u = LOW"
    using t0(3) assms(3) rest(1) by fastforce
  moreover have "\<forall>u \<in> set smp'. fst p \<le> u \<and> u < snd p \<longrightarrow> pin u = LOW"
    using rest(4) assms(3) by fastforce
  ultimately show ?thesis
    unfolding press_ok_def using t0(1,2) rest(1,2,3) assms(2) by blast
qed

lemma noted_inv:
  assumes "debounce_inv pin b"
  shows "debounce_inv pin (noted pin b)"
proof -
  let ?t = "clock b"
  from assms have i1: "\<forall>u \<in> set (sampled b). u \<le> ?t"
    and i2: "lastState b = LOW \<longrightarrow>
        (\<exists>t0 \<in> set (sampled b). of_nat t0 = lastTime b \<and>
            (\<forall>u \<in> set (sampled b). t0 \<le> u \<longrightarrow> pin u = LOW))"
    and i3: "\<forall>p \<in> set (presses b). snd p \<le> ?t \<and> press_ok pin (sampled b) p"
    and i4: "separated (presses b)"
    unfolding debounce_inv_def by blast+
  have n1: "\<forall>u \<in> set (sampled (noted pin b)). u \<le> clock (noted pin b)"
    using i1 by simp
  have n2: "lastState (noted pin b) = LOW \<longrightarrow>
        (\<exists>t0 \<in> set (sampled (noted pin b)). of_nat t0 = lastTime (noted pin b) \<and>
            (\<forall>u \<in> set (sampled (noted pin b)). t0 \<le> u \<longrightarrow> pin u = LOW))"
  proof
    assume low: "lastState (noted pin b) = LOW"
    show "\<exists>t0 \<in> set (sampled (noted pin b)). of_nat t0 = lastTime (noted pin b) \<and>
            (\<forall>u \<in> set (sampled (noted pin b)). t0 \<le> u \<longrightarrow> pin u = LOW)"
    proof (cases "pin ?t \<noteq> lastState b")
      case True
      with low have "pin ?t = LOW" by (simp add: noted_def)
      moreover have "lastTime (noted pin b) = of_nat ?t" using True by (simp add: noted_def)
      ultimately have "of_nat ?t = lastTime (noted pin b) \<and>
            (\<forall>u \<in> set (sampled (noted pin b)). ?t \<le> u \<longrightarrow> pin u = LOW)"
        using i1 by auto
      then show ?thesis by (intro bexI[of _ ?t]) simp_all
    next
      case False
      with low have l: "lastState b = LOW" "pin ?t = LOW" "lastTime (noted pin b) = lastTime b"
        by (simp_all add: noted_def)
      with i2 obtain t0 where "t0 \<in> set (sampled b)" "of_nat t0 = lastTime b"
        "\<forall>u \<in> set (sampled b). t0 \<le> u \<longrightarrow> pin u = LOW" by blast
      with l(2,3) show ?thesis by (intro bexI[of _ t0]) auto
    qed
  qed
  have n3: "\<forall>p \<in> set (presses (noted pin b)).
              snd p \<le> clock (noted pin b) \<and> press_ok pin (sampled (noted pin b)) p"
  proof
    fix p assume "p \<in> set (presses (noted pin b))"
    with i3 have p: "snd p \<le> ?t" "press_ok pin (sampled b) p" by simp_all
    from p(2) have "press_ok pin (sampled b @ [?t]) p"
      by (rule press_ok_mono) (use p(1) in auto)
    with p(1) show "snd p \<le> clock (noted pin b) \<and> press_ok pin (sampled (noted pin b)) p"
      by simp
  qed
  show ?thesis unfolding debounce_inv_def using n1 n2 n3 i4 by simp
qed

lemma delay_inv: "debounce_inv pin b \<Longrightarrow> debounce_inv pin (delay d b)"
  unfolding debounce_inv_def delay_def by fastforce

lemma released_inv: "debounce_inv pin (released t0)"
  by (simp add: debounce_inv_def released_def separated_def HIGH_def LOW_def)

lemma buttonPressed_inv:
  assumes inv: "debounce_inv pin b" and call: "buttonPressed pin b = Some (r, b')"
  shows "debounce_inv pin (logged (clock b) r b')"
proof (cases "\<not> pin (clock b) \<and> DEBOUNCE_MS < unat (of_nat (clock b) - lastTime (noted pin b))")
  case False
  with call have "b' = noted pin b" "\<not> r" by (simp_all add: buttonPressed_unfold)
  with inv show ?thesis by (simp add: noted_inv logged_def)
next
  case True
  let ?t = "clock b"
  let ?b2 = "noted pin b"
  from True have low: "\<not> pin ?t" and long: "DEBOUNCE_MS < unat (of_nat ?t - lastTime ?b2)"
    by simp_all
  from True call obtain b3 where w: "waitRelease pin ?b2 = Some b3"
    and b': "b' = b3\<lparr>lastState := True, lastTime := of_nat (clock b3)\<rparr>" and r: "r"
    by (auto simp: buttonPressed_unfold split: option.splits)
  let ?l = "logged ?t r b'"
  have l: "?l = b3\<lparr>lastState := True, lastTime := of_nat (clock b3),
                    presses := presses b3 @ [(?t, clock b3)]\<rparr>"
    using b' r by (simp add: logged_def)
  from waitRelease_facts[OF w]
  have w1: "?t \<le> clock b3" and w2: "pin (clock b3)" and w3: "clock b3 \<in> set (sampled b3)"
    and w4: "set (sampled ?b2) \<subseteq> set (sampled b3)"
    and w5: "\<forall>u \<in> set (sampled b3). u \<in> set (sampled ?b2) \<or>
               (?t \<le> u \<and> u \<le> clock b3 \<and> (u < clock b3 \<longrightarrow> \<not> pin u))"
    and w6: "presses b3 = presses b"
    unfolding wait_post_def by simp_all
  from w1 w2 low have lt: "?t < clock b3" by (cases "?t = clock b3") auto
  from inv have n: "debounce_inv pin ?b2" by (rule noted_inv)
  then have n1': "\<forall>u \<in> set (sampled ?b2). u \<le> clock ?b2"
    and n2: "lastState ?b2 = LOW \<longrightarrow>
        (\<exists>t0 \<in> set (sampled ?b2). of_nat t0 = lastTime ?b2 \<and>
            (\<forall>u \<in> set (sampled ?b2). t0 \<le> u \<longrightarrow> pin u = LOW))"
    and n3': "\<forall>p \<in> set (presses ?b2). snd p \<le> clock ?b2 \<and> press_ok pin (sampled ?b2) p"
    and n4': "separated (presses ?b2)"
    unfolding debounce_inv_def by blast+
  from n1' have n1: "\<forall>u \<in> set (sampled ?b2). u \<le> ?t" by simp
  from n3' have n3: "\<forall>p \<in> set (presses b). snd p \<le> ?t \<and> press_ok pin (sampled ?b2) p"
    by simp
  from n4' have n4: "separated (presses b)" by simp
  have "lastState ?b2 = LOW" using low by (auto simp: noted_def LOW_def)
  with n2 obtain t0 where t0: "t0 \<in> set (sampled ?b2)" "of_nat t0 = lastTime ?b2"
    "\<forall>u \<in> set (sampled ?b2). t0 \<le> u \<longrightarrow> pin u = LOW" by blast
  from t0(1) n1 have "t0 \<le> ?t" by blast
  then have "unat (of_nat ?t - of_nat t0 :: 32 word) \<le> ?t - t0" by (rule elapsed_le)
  with long t0(2) have far: "t0 + DEBOUNCE_MS < ?t" by simp
  have i1: "\<forall>u \<in> set (sampled b3). u \<le> clock b3"
    using w5 n1 w1 by fastforce
  have old: "snd p \<le> clock b3 \<and> press_ok pin (sampled b3) p" if "p \<in> set (presses b)" for p
  proof -
    from that n3 have p: "snd p \<le> ?t" "press_ok pin (sampled ?b2) p" by blast+
    from p(2) w4 have "press_ok pin (sampled b3) p"
      by (rule press_ok_mono) (use w5 p(1) in fastforce)
    with p(1) w1 show ?thesis by simp
  qed
  have new: "press_ok pin (sampled b3) (?t, clock b3)"
  proof -
    have a: "\<forall>u \<in> set (sampled b3). t0 \<le> u \<and> u \<le> ?t \<longrightarrow> pin u = LOW"
      using w5 t0(3) lt by (fastforce simp: LOW_def)
    have b: "\<forall>u \<in> set (sampled b3). ?t \<le> u \<and> u < clock b3 \<longrightarrow> pin u = LOW"
    proof (intro ballI impI)
      fix u assume u: "u \<in> set (sampled b3)" "?t \<le> u \<and> u < clock b3"
      from u(1) w5 consider "u \<in> set (sampled ?b2)" | "u < clock b3 \<longrightarrow> \<not> pin u" by blast
      then show "pin u = LOW"
      proof cases
        case 1
        with n1 u(2) have "u = ?t" by fastforce
        with low show ?thesis by (simp add: LOW_def)
      next
        case 2
        with u(2) show ?thesis by (simp add: LOW_def)
      qed
    qed
    from t0(1) w4 have "t0 \<in> set (sampled b3)" by blast
    with far a b lt w3 w2 show ?thesis
      unfolding press_ok_def by (auto simp: HIGH_def)
  qed
  have i3: "\<forall>p \<in> set (presses ?l). snd p \<le> clock ?l \<and> press_ok pin (sampled ?l) p"
    using old new w6 unfolding l by auto
  have i4: "separated (presses ?l)"
    using n4 n3 w6 unfolding l by (auto simp: separated_def sorted_wrt_append)
  show ?thesis unfolding debounce_inv_def using i1 i3 i4 unfolding l by (simp add: LOW_def)
qed

lemma buttonPressed_presses:
  assumes call: "buttonPressed pin b = Some (r, b')"
  shows "presses b' = presses b \<and> clock b \<le> clock b'"
proof (cases "\<not> pin (clock b) \<and> DEBOUNCE_MS < unat (of_nat (clock b) - lastTime (noted pin b))")
  case False
  with call have "b' = noted pin b" by (simp add: buttonPressed_unfold)
  then show ?thesis by simp
next
  case True
  with call obtain b3 where w: "waitRelease pin (noted pin b) = Some b3"
    and b': "b' = b3\<lparr>lastState := True, lastTime := of_nat (clock b3)\<rparr>"
    by (auto simp: buttonPressed_unfold split: option.splits)
  from waitRelease_facts[OF w] have "presses b3 = presses b" "clock b \<le> clock b3"
    unfolding wait_post_def by simp_all
  with b' show ?thesis by simp
qed

lemma polls_inv:
  "debounce_inv pin b \<Longrightarrow> polls pin ds b = Some b' \<Longrightarrow> debounce_inv pin b'"
proof (induction ds arbitrary: b)
  case Nil
  then show ?case by simp
next
  case (Cons d ds)
  from Cons.prems(2) obtain r b1 where c: "buttonPressed pin (delay d b) = Some (r, b1)"
    and p: "polls pin ds (logged (clock b + d) r b1) = Some b'"
    by (auto split: option.splits)
  from Cons.prems(1) have "debounce_inv pin (delay d b)" by (rule delay_inv)
  then have "debounce_inv pin (logged (clock (delay d b)) r b1)" using c by (rule buttonPressed_inv)
  then have "debounce_inv pin (logged (clock b + d) r b1)" by (simp add: delay_def)
  then show ?case using p by (rule Cons.IH)
qed

lemma buttonPressed_returns:
  "pin (clock b + 5 * k) \<Longrightarrow> \<exists>r b'. buttonPressed pin b = Some (r, b')"
  using waitRelease_returns[of pin "noted pin b" k]
  by (auto simp: buttonPressed_unfold)

text \<open>A call after a run is the last call of a longer run.\<close>

lemma polls_snoc:
  "polls pin (ds @ [d]) b =
     (case polls pin ds b of
        None \<Rightarrow> None
      | Some b1 \<Rightarrow>
          (case buttonPressed pin (delay d b1) of
             None \<Rightarrow> None
           | Some (r, b') \<Rightarrow> Some (logged (clock b1 + d) r b')))"
  by (induction ds arbitrary: b) (auto split: option.splits)

text \<open>A contact that closes for 50 ms: no call returns \<^verbatim>\<open>true\<close>.\<close>

lemma bounce_ignored:
  "polls bounce [100, 20, 20, 20, 100, 200] (released 0) =
     Some \<lparr>lastState = True, lastTime = 160, clock = 460,
           sampled = [100, 120, 140, 160, 260, 460], presses = []\<rparr>"
  by code_simp

text \<open>
  C8. Poll one button any number of times, with any pauses between the calls and any signal
  on the pin, starting from the state the sketch initialises, and then call
  \<^verbatim>\<open>buttonPressed\<close> once more. If that call returns \<^verbatim>\<open>true\<close>, then at the time of the call the
  samples had read active without interruption for more than \<^verbatim>\<open>DEBOUNCE_MS\<close> = 120 ms, the
  call returned only at a later sample that read released, all samples in between reading
  active, and every earlier call that returned \<^verbatim>\<open>true\<close> had returned, at its released sample,
  before this call was made: one run of active samples makes at most one call return \<^verbatim>\<open>true\<close>.
  The same holds of all the calls of the run that returned \<^verbatim>\<open>true\<close>, which are the ones
  that \<open>polls\<close> logs in \<open>presses\<close>. The wait for the release need not end; the statement is about
  calls that return, and a call returns whenever the pin reads released at one of the 5 ms
  steps of its wait (\<open>buttonPressed_returns\<close>).
\<close>

theorem buttonPressed_debounces:
  assumes "polls pin ds (released t0) = Some b"
    and "buttonPressed pin (delay d b) = Some (r, b')"
  shows "(r \<longrightarrow> press_ok pin (sampled b') (clock b + d, clock b') \<and>
               (\<forall>p \<in> set (presses b). snd p \<le> clock b + d)) \<and>
         (\<forall>p \<in> set (presses b). press_ok pin (sampled b) p) \<and> separated (presses b)"
proof -
  have inv: "debounce_inv pin b" using released_inv assms(1) by (rule polls_inv)
  then have old: "\<forall>p \<in> set (presses b). snd p \<le> clock b \<and> press_ok pin (sampled b) p"
    and sep: "separated (presses b)"
    unfolding debounce_inv_def by blast+
  from inv have "debounce_inv pin (delay d b)" by (rule delay_inv)
  then have "debounce_inv pin (logged (clock (delay d b)) r b')"
    using assms(2) by (rule buttonPressed_inv)
  then have l: "debounce_inv pin (logged (clock b + d) r b')" by (simp add: delay_def)
  have "press_ok pin (sampled b') (clock b + d, clock b')" if "r"
  proof -
    from that have "(clock b + d, clock b') \<in> set (presses (logged (clock b + d) r b'))"
      "sampled (logged (clock b + d) r b') = sampled b'"
      by (simp_all add: logged_def)
    with l show ?thesis unfolding debounce_inv_def by metis
  qed
  moreover have "\<forall>p \<in> set (presses b). snd p \<le> clock b + d" using old by fastforce
  ultimately show ?thesis using old sep by blast
qed

theorem buttonPressed_debounces_witness:
  "polls twoPresses [100, 130, 50, 200] (released 0) =
     Some \<lparr>lastState = False, lastTime = 500, clock = 500,
           sampled = [100, 230, 230, 235, 240, 245, 250, 300, 500], presses = [(230, 250)]\<rparr> \<and>
   buttonPressed twoPresses
     (delay 130 \<lparr>lastState = False, lastTime = 500, clock = 500,
                 sampled = [100, 230, 230, 235, 240, 245, 250, 300, 500],
                 presses = [(230, 250)]\<rparr>) =
     Some (True, \<lparr>lastState = True, lastTime = 640, clock = 640,
                  sampled = [100, 230, 230, 235, 240, 245, 250, 300, 500, 630, 630, 635, 640],
                  presses = [(230, 250)]\<rparr>) \<and>
   separated [(230, 250)]"
proof -
  have run: "polls twoPresses [100, 130, 50, 200] (released 0) =
     Some \<lparr>lastState = False, lastTime = 500, clock = 500,
           sampled = [100, 230, 230, 235, 240, 245, 250, 300, 500], presses = [(230, 250)]\<rparr>"
    by code_simp
  have call: "buttonPressed twoPresses
     (delay 130 \<lparr>lastState = False, lastTime = 500, clock = 500,
                 sampled = [100, 230, 230, 235, 240, 245, 250, 300, 500],
                 presses = [(230, 250)]\<rparr>) =
     Some (True, \<lparr>lastState = True, lastTime = 640, clock = 640,
                  sampled = [100, 230, 230, 235, 240, 245, 250, 300, 500, 630, 630, 635, 640],
                  presses = [(230, 250)]\<rparr>)"
    by code_simp
  show ?thesis using run call buttonPressed_debounces [OF run call] by simp
qed

section \<open>The operations keep the directory model well-formed\<close>

lemma model_ok_boot: "model_ok boot"
  by (simp add: model_ok_def array_ok_def boot_def MAX_ENTRIES_def VISIBLE_ITEMS_def)

lemma model_ok_accesses [simp]: "model_ok (s\<lparr>accesses := a\<rparr>) = model_ok s"
  by (simp add: model_ok_def array_ok_def)

lemma model_ok_drawUI: "drawUI s = Some s' \<Longrightarrow> model_ok s \<Longrightarrow> model_ok s'"
  using drawUI_model[of s s'] model_ok_accesses[where s = s and a = "accesses s'"] by simp

lemma model_ok_load:
  assumes "length (entries s) = nat MAX_ENTRIES" and "length (currentPath s) \<le> 79"
  shows "model_ok (snd (loadDirectory sd path s))"
  using loadDirectory_after[OF assms(1), of sd path] assms(2)
  by (simp add: model_ok_def VISIBLE_ITEMS_def)

lemma model_ok_onScroll:
  assumes "model_ok s" and "onScroll s = Some s'"
  shows "model_ok s'"
proof (cases "entryCount s \<le> 0")
  case True
  with assms show ?thesis by (simp add: onScroll_def)
next
  case False
  then have pos: "0 < entryCount s" by simp
  have ok: "array_ok s" using assms(1) by (simp add: model_ok_def)
  from onScroll_inv[OF pos ok] assms(2) have s': "scroll_inv s'" "entryCount s' = entryCount s"
    "array_ok s'" by auto
  from pos ok obtain t where t: "onScroll s = Some t" "currentPath t = currentPath s"
    "selectionIndex t = selectionIndex (clampScroll (advanced s))"
    by (rule onScroll_step)
  have "0 < entryCount (advanced s)" using pos by (simp add: advanced_def)
  from clampScroll_sel[OF this] t assms(2)
  have sel: "0 \<le> selectionIndex s'" "selectionIndex s' < entryCount s"
    by (simp_all add: advanced_def)
  have "length (currentPath s') \<le> 79" using t assms by (simp add: model_ok_def)
  with s' sel pos show ?thesis
    by (auto simp: model_ok_def scroll_inv_def split: if_splits)
qed

lemma model_ok_onEnter:
  assumes "model_ok s" and "onEnter sd s = Some s'"
  shows "model_ok s'"
proof (cases "entryCount s \<le> 0")
  case True
  with assms show ?thesis by (simp add: onEnter_def)
next
  case False
  let ?i = "selectionIndex s"
  from False assms(2) obtain e s1 where r1: "readEntry s ?i = Some (e, s1)"
    by (auto simp: onEnter_def split: option.splits)
  then have s1: "s1 = s\<lparr>accesses := accesses s @ [(?i, entryCount s)]\<rparr>"
    by (simp add: readEntry_Some)
  from False assms(2) r1 obtain e' s2 where r2: "readEntry s1 (selectionIndex s1) = Some (e', s2)"
    by (auto simp: onEnter_def split: option.splits if_splits)
  then have s2: "s2 = s1\<lparr>accesses := accesses s1 @ [(selectionIndex s1, entryCount s1)]\<rparr>"
    by (simp add: readEntry_Some)
  have ok2: "model_ok s2" using assms(1) s1 s2 by simp
  then have len2: "length (entries s2) = nat MAX_ENTRIES" "length (currentPath s2) \<le> 79"
    by (simp_all add: model_ok_def array_ok_def)
  show ?thesis
  proof (cases "isDir e")
    case False
    with \<open>\<not> entryCount s \<le> 0\<close> assms(2) r1 r2 have "drawUI s2 = Some s'"
      by (simp add: onEnter_def)
    then show ?thesis using ok2 by (rule model_ok_drawUI)
  next
    case True
    let ?np = "pathJoin 80 (currentPath s2) (name e')"
    let ?r = "loadDirectory sd ?np s2"
    have okr: "model_ok (snd ?r)" using len2 by (rule model_ok_load)
    show ?thesis
    proof (cases "fst ?r")
      case ok: True
      let ?s3 = "(snd ?r)\<lparr>currentPath := take 79 ?np\<rparr>"
      from \<open>\<not> entryCount s \<le> 0\<close> assms(2) r1 r2 True ok have "drawUI ?s3 = Some s'"
        by (auto simp: onEnter_def Let_def split: prod.splits bool.splits)
      moreover have "model_ok ?s3" using okr by (simp add: model_ok_def array_ok_def)
      ultimately show ?thesis by (rule model_ok_drawUI)
    next
      case failed: False
      from \<open>\<not> entryCount s \<le> 0\<close> assms(2) r1 r2 True failed
      obtain e3 s4 where r3: "readEntry (snd ?r) (selectionIndex (snd ?r)) = Some (e3, s4)"
        and d: "drawUI s4 = Some s'"
        by (auto simp: onEnter_def Let_def split: prod.splits bool.splits option.splits)
      from r3 have "s4 = (snd ?r)\<lparr>accesses := accesses (snd ?r) @
            [(selectionIndex (snd ?r), entryCount (snd ?r))]\<rparr>"
        by (simp add: readEntry_Some)
      with okr have "model_ok s4" by simp
      with d show ?thesis by (rule model_ok_drawUI)
    qed
  qed
qed

lemma model_ok_onBack:
  assumes "model_ok s" and "onBack sd s = Some s'"
  shows "model_ok s'"
proof (cases "currentPath s = ''/''")
  case True
  with assms show ?thesis by (simp add: onBack_def)
next
  case False
  have len: "length (entries s) = nat MAX_ENTRIES" "length (currentPath s) \<le> 79"
    using assms(1) by (simp_all add: model_ok_def array_ok_def)
  let ?p = "goParent (take 79 (currentPath s))"
  let ?r = "loadDirectory sd ?p s"
  have okr: "model_ok (snd ?r)" using len by (rule model_ok_load)
  show ?thesis
  proof (cases "fst ?r")
    case True
    let ?s1 = "(snd ?r)\<lparr>currentPath := take 79 ?p\<rparr>"
    from False assms(2) True have "drawUI ?s1 = Some s'"
      by (auto simp: onBack_def Let_def split: prod.splits bool.splits)
    moreover have "model_ok ?s1" using okr by (simp add: model_ok_def array_ok_def)
    ultimately show ?thesis by (rule model_ok_drawUI)
  next
    case failed: False
    let ?s1 = "(snd ?r)\<lparr>currentPath := ''/''\<rparr>"
    let ?s2 = "snd (loadDirectory sd ''/'' ?s1)"
    from False assms(2) failed have "drawUI ?s2 = Some s'"
      by (auto simp: onBack_def Let_def split: prod.splits bool.splits)
    moreover have "model_ok ?s2"
      using okr by (intro model_ok_load) (simp_all add: model_ok_def array_ok_def)
    ultimately show ?thesis by (rule model_ok_drawUI)
  qed
qed

text \<open>
  C6. \<^verbatim>\<open>onScroll\<close> is cyclic: from every state of the directory model with \<open>entryCount > 0\<close>,
  \<open>entryCount\<close> calls return and bring \<open>selectionIndex\<close> back to its original value.
\<close>

theorem onScroll_cyclic:
  assumes "model_ok s" and "0 < entryCount s"
  shows "\<exists>s'. scrolls (nat (entryCount s)) s = Some s' \<and> selectionIndex s' = selectionIndex s"
proof -
  from assms have rng: "0 \<le> selectionIndex s" "selectionIndex s < entryCount s" "array_ok s"
    by (simp_all add: model_ok_def)
  from scrolls_selection[OF rng, of "nat (entryCount s)"] obtain s'
    where "scrolls (nat (entryCount s)) s = Some s'"
      "selectionIndex s' = (selectionIndex s + int (nat (entryCount s))) mod entryCount s"
    by blast
  moreover have "(selectionIndex s + int (nat (entryCount s))) mod entryCount s = selectionIndex s"
    using rng(1,2) by simp
  ultimately show ?thesis by simp
qed

theorem onScroll_cyclic_witness:
  "model_ok (boot\<lparr>entryCount := 7, selectionIndex := 3\<rparr>) \<and>
   0 < entryCount (boot\<lparr>entryCount := 7, selectionIndex := 3\<rparr>) \<and>
   (\<exists>s'. scrolls 7 (boot\<lparr>entryCount := 7, selectionIndex := 3\<rparr>) = Some s' \<and>
         selectionIndex s' = 3)"
  using onScroll_cyclic [of "boot\<lparr>entryCount := 7, selectionIndex := 3\<rparr>"]
  by (simp add: boot_def model_ok_def array_ok_def MAX_ENTRIES_def VISIBLE_ITEMS_def)

text \<open>
  What \<^verbatim>\<open>onEnter\<close> does in general when the selected entry is a directory and the joined path
  cannot be loaded: the three counters are 0 afterwards, and the third read, for the
  overlay, is of \<^verbatim>\<open>entries[0]\<close> with \<open>entryCount = 0\<close>.
\<close>

lemma onEnter_failed_open:
  assumes ok: "model_ok s" and pos: "0 < entryCount s"
    and dir: "isDir (entries s ! nat (selectionIndex s))"
    and bad: "sd (pathJoin 80 (currentPath s) (name (entries s ! nat (selectionIndex s)))) = None \<or>
              sd (pathJoin 80 (currentPath s) (name (entries s ! nat (selectionIndex s))))
                = Some RegularFile"
  shows "onEnter sd s =
           Some (s\<lparr>entryCount := 0, selectionIndex := 0, scrollOffset := 0,
                   accesses := accesses s @ [(selectionIndex s, entryCount s),
                                             (selectionIndex s, entryCount s), (0, 0)]\<rparr>)"
proof -
  let ?i = "selectionIndex s"
  let ?e = "entries s ! nat ?i"
  let ?s1 = "s\<lparr>accesses := accesses s @ [(?i, entryCount s)]\<rparr>"
  let ?s2 = "s\<lparr>accesses := accesses s @ [(?i, entryCount s), (?i, entryCount s)]\<rparr>"
  let ?s3 = "?s2\<lparr>entryCount := 0, selectionIndex := 0, scrollOffset := 0\<rparr>"
  let ?s4 = "?s3\<lparr>accesses := accesses ?s3 @ [(0, 0)]\<rparr>"
  have inb: "0 \<le> ?i" "?i < MAX_ENTRIES" "nat ?i < length (entries s)" "0 < length (entries s)"
    using ok pos by (simp_all add: model_ok_def array_ok_def)
  have r1: "readEntry s ?i = Some (?e, ?s1)" using inb by (simp add: readEntry_in)
  have r2: "readEntry ?s1 ?i = Some (?e, ?s2)" using inb by (simp add: readEntry_in)
  have ld: "loadDirectory sd (pathJoin 80 (currentPath s) (name ?e)) ?s2 = (False, ?s3)"
    using bad by (rule loadDirectory_fail)
  have r3: "readEntry ?s3 0 = Some (entries s ! 0, ?s4)"
    using inb(4) by (simp add: readEntry_def MAX_ENTRIES_def)
  have d: "drawUI ?s4 = Some ?s4" unfolding drawUI_def by (rule drawRows_stop) simp
  have "onEnter sd s = drawUI ?s4"
    using pos dir r1 r2 ld r3 by (simp add: onEnter_def)
  with d show ?thesis by simp
qed

end
